theory Spec2Isabelle
  imports Main "HOL-Library.Word"
begin

unbundle bit_operations_syntax

section \<open>Border router transport of the embeNET node port (embenet\_brt.c)\<close>

text \<open>
  C types: \<open>uint8_t\<close> and \<open>uint16_t\<close> are words of that width; \<open>size_t\<close> values
  (lengths and indices) are natural numbers, and every place where the C program would
  read or write outside an object is an explicit failure (\<open>None\<close>) of the model.
\<close>

type_synonym uint8_t = "8 word"
type_synonym uint16_t = "16 word"
type_synonym uint32_t = "32 word"

definition HDLC_FLAG :: uint8_t where
  "HDLC_FLAG = 0x7e"

definition HDLC_ESCAPE :: uint8_t where
  "HDLC_ESCAPE = 0x7d"

definition HDLC_ESCAPE_MASK :: uint8_t where
  "HDLC_ESCAPE_MASK = 0x20"

definition HDLC_CRCINIT :: uint16_t where
  "HDLC_CRCINIT = 0xffff"

definition EMBENET_BRT_MAX_FRAME_SIZE :: nat where
  "EMBENET_BRT_MAX_FRAME_SIZE = 200"

definition OUTPUT_RING_BUFFER_SIZE :: nat where
  "OUTPUT_RING_BUFFER_SIZE = 256"

definition INPUT_RING_BUFFER_SIZE :: nat where
  "INPUT_RING_BUFFER_SIZE = 512"

subsection \<open>CRC engine\<close>

definition fcstab :: "uint16_t list" where
  "fcstab =
    [
     0x0000, 0x1189, 0x2312, 0x329b, 0x4624, 0x57ad, 0x6536, 0x74bf,
     0x8c48, 0x9dc1, 0xaf5a, 0xbed3, 0xca6c, 0xdbe5, 0xe97e, 0xf8f7,
     0x1081, 0x0108, 0x3393, 0x221a, 0x56a5, 0x472c, 0x75b7, 0x643e,
     0x9cc9, 0x8d40, 0xbfdb, 0xae52, 0xdaed, 0xcb64, 0xf9ff, 0xe876,
     0x2102, 0x308b, 0x0210, 0x1399, 0x6726, 0x76af, 0x4434, 0x55bd,
     0xad4a, 0xbcc3, 0x8e58, 0x9fd1, 0xeb6e, 0xfae7, 0xc87c, 0xd9f5,
     0x3183, 0x200a, 0x1291, 0x0318, 0x77a7, 0x662e, 0x54b5, 0x453c,
     0xbdcb, 0xac42, 0x9ed9, 0x8f50, 0xfbef, 0xea66, 0xd8fd, 0xc974,
     0x4204, 0x538d, 0x6116, 0x709f, 0x0420, 0x15a9, 0x2732, 0x36bb,
     0xce4c, 0xdfc5, 0xed5e, 0xfcd7, 0x8868, 0x99e1, 0xab7a, 0xbaf3,
     0x5285, 0x430c, 0x7197, 0x601e, 0x14a1, 0x0528, 0x37b3, 0x263a,
     0xdecd, 0xcf44, 0xfddf, 0xec56, 0x98e9, 0x8960, 0xbbfb, 0xaa72,
     0x6306, 0x728f, 0x4014, 0x519d, 0x2522, 0x34ab, 0x0630, 0x17b9,
     0xef4e, 0xfec7, 0xcc5c, 0xddd5, 0xa96a, 0xb8e3, 0x8a78, 0x9bf1,
     0x7387, 0x620e, 0x5095, 0x411c, 0x35a3, 0x242a, 0x16b1, 0x0738,
     0xffcf, 0xee46, 0xdcdd, 0xcd54, 0xb9eb, 0xa862, 0x9af9, 0x8b70,
     0x8408, 0x9581, 0xa71a, 0xb693, 0xc22c, 0xd3a5, 0xe13e, 0xf0b7,
     0x0840, 0x19c9, 0x2b52, 0x3adb, 0x4e64, 0x5fed, 0x6d76, 0x7cff,
     0x9489, 0x8500, 0xb79b, 0xa612, 0xd2ad, 0xc324, 0xf1bf, 0xe036,
     0x18c1, 0x0948, 0x3bd3, 0x2a5a, 0x5ee5, 0x4f6c, 0x7df7, 0x6c7e,
     0xa50a, 0xb483, 0x8618, 0x9791, 0xe32e, 0xf2a7, 0xc03c, 0xd1b5,
     0x2942, 0x38cb, 0x0a50, 0x1bd9, 0x6f66, 0x7eef, 0x4c74, 0x5dfd,
     0xb58b, 0xa402, 0x9699, 0x8710, 0xf3af, 0xe226, 0xd0bd, 0xc134,
     0x39c3, 0x284a, 0x1ad1, 0x0b58, 0x7fe7, 0x6e6e, 0x5cf5, 0x4d7c,
     0xc60c, 0xd785, 0xe51e, 0xf497, 0x8028, 0x91a1, 0xa33a, 0xb2b3,
     0x4a44, 0x5bcd, 0x6956, 0x78df, 0x0c60, 0x1de9, 0x2f72, 0x3efb,
     0xd68d, 0xc704, 0xf59f, 0xe416, 0x90a9, 0x8120, 0xb3bb, 0xa232,
     0x5ac5, 0x4b4c, 0x79d7, 0x685e, 0x1ce1, 0x0d68, 0x3ff3, 0x2e7a,
     0xe70e, 0xf687, 0xc41c, 0xd595, 0xa12a, 0xb0a3, 0x8238, 0x93b1,
     0x6b46, 0x7acf, 0x4854, 0x59dd, 0x2d62, 0x3ceb, 0x0e70, 0x1ff9,
     0xf78f, 0xe606, 0xd49d, 0xc514, 0xb1ab, 0xa022, 0x92b9, 0x8330,
     0x7bc7, 0x6a4e, 0x58d5, 0x495c, 0x3de3, 0x2c6a, 0x1ef1, 0x0f78
    ]"

text \<open>
  \<open>openhdlc_crc\<close>: the operands of \<open>>>\<close>, \<open>^\<close> and \<open>&\<close> are promoted to the
  32-bit \<open>int\<close> of the target, and the result is converted back to \<open>uint16_t\<close> on return.
  All values involved are non-negative, so the promoted values are modelled as 32-bit words.
\<close>

definition openhdlc_crc :: "uint16_t \<Rightarrow> uint8_t \<Rightarrow> uint16_t" where
  "openhdlc_crc crc byte =
     ucast (drop_bit 8 (ucast crc :: uint32_t)
            XOR ucast (fcstab ! unat (((ucast crc :: uint32_t) XOR ucast byte) AND 0xff)))"

text \<open>
  The reference the table is compared with, following the words of the specification:
  the bit-reversed CRC-16 for polynomial 0x8408, eight least-significant-bit-first
  shift-and-reduce rounds starting from the table index.
\<close>

definition crc16_round_spec :: "uint16_t \<Rightarrow> uint16_t" where
  "crc16_round_spec v = (if bit v 0 then drop_bit 1 v XOR 0x8408 else drop_bit 1 v)"

definition fcstab_spec :: "nat \<Rightarrow> uint16_t" where
  "fcstab_spec i = (crc16_round_spec ^^ 8) (of_nat i)"

text \<open>
  CRC-16/X-25 in the words of the specification, without the table: initial value 0xFFFF,
  each byte is XORed into the low bits and reduced by eight rounds, and the result is
  complemented.
\<close>

definition crc16_x25_spec :: "uint8_t list \<Rightarrow> uint16_t" where
  "crc16_x25_spec bytes =
     NOT (foldl (\<lambda>crc byte. (crc16_round_spec ^^ 8) (crc XOR ucast byte)) 0xffff bytes)"

subsection \<open>Byte queue\<close>

text \<open>
  Modelled from the spec: \<open>ring_buffer.h\<close> (the type \<open>RingBuffer\<close> with
  \<open>RingBuffer_Init\<close>, \<open>RingBuffer_PutChar\<close>, \<open>RingBuffer_GetChar\<close> and
  \<open>RingBuffer_GetLen\<close>) is not among the sources. The specification describes a
  fixed-capacity first-in first-out queue of bytes: \<open>init\<close> empties it, \<open>pop\<close> removes
  and returns the oldest byte or signals that the queue is empty, \<open>length\<close> is the number
  of queued bytes, and \<open>push\<close> on a full queue either is rejected or overwrites the oldest
  entry. The specification leaves that choice open, so the descriptor carries it as
  \<open>policy\<close>, which no operation changes.
\<close>

datatype overflow_policy = RejectWhenFull | OverwriteOldest

record RingBuffer =
  content :: "uint8_t list"
  capacity :: nat
  policy :: overflow_policy

text \<open>Modelled from the spec: \<open>init(capacity)\<close> (re)sets the queue to empty with the given
  fixed capacity.\<close>

definition RingBuffer_Init :: "RingBuffer \<Rightarrow> nat \<Rightarrow> RingBuffer" where
  "RingBuffer_Init rb cap = rb\<lparr>content := [], capacity := cap\<rparr>"

text \<open>Modelled from the spec: \<open>length()\<close> is the current number of queued bytes.\<close>

definition RingBuffer_GetLen :: "RingBuffer \<Rightarrow> nat" where
  "RingBuffer_GetLen rb = length (content rb)"

text \<open>Modelled from the spec: \<open>push(byte)\<close> attempts to add one byte and reports success;
  on a full queue it fails or overwrites the oldest entry, as \<open>policy\<close> says.\<close>

definition RingBuffer_PutChar :: "RingBuffer \<Rightarrow> uint8_t \<Rightarrow> RingBuffer \<times> bool" where
  "RingBuffer_PutChar rb c =
     (if length (content rb) < capacity rb then (rb\<lparr>content := content rb @ [c]\<rparr>, True)
      else (case policy rb of
              RejectWhenFull \<Rightarrow> (rb, False)
            | OverwriteOldest \<Rightarrow>
                (rb\<lparr>content := drop (Suc (length (content rb)) - capacity rb) (content rb @ [c])\<rparr>,
                 True)))"

text \<open>Modelled from the spec: \<open>pop()\<close> removes and returns the oldest byte, or signals
  that the queue is empty (and then stores nothing through its pointer argument).\<close>

definition RingBuffer_GetChar :: "RingBuffer \<Rightarrow> RingBuffer \<times> uint8_t option" where
  "RingBuffer_GetChar rb =
     (case content rb of
        [] \<Rightarrow> (rb, None)
      | c # cs \<Rightarrow> (rb\<lparr>content := cs\<rparr>, Some c))"

subsection \<open>Module state\<close>

text \<open>
  The static variables of \<open>EMBENET_BRT_Receive\<close> keep their values between calls; they
  form the record \<open>decoder\<close>. \<open>uart_tx\<close> lists, oldest first, the bytes handed to
  \<open>EMBENET_NODE_BSP_UART_WriteByte\<close>. Every queue access of the source sits between
  \<open>EMBENET_CRITICAL_SECTION_Enter\<close> and \<open>EMBENET_CRITICAL_SECTION_Exit\<close>; here each
  operation is one atomic step on the state, and the critical section itself is modelled
  separately below.
\<close>

record decoder =
  inputFrame :: "uint8_t list"
  inputFrameDataIndex :: nat
  inputFrameReceiving :: bool
  lastDataByte :: uint8_t

record brt_state =
  inputRingBufferDesc :: RingBuffer
  outputRingBufferDesc :: RingBuffer
  isTransmitting :: bool
  uart_tx :: "uint8_t list"
  Receive_statics :: decoder

text \<open>Static storage is zero-initialised at program start.\<close>

definition decoder_init :: decoder where
  "decoder_init =
     \<lparr>inputFrame = replicate EMBENET_BRT_MAX_FRAME_SIZE 0, inputFrameDataIndex = 0,
      inputFrameReceiving = False, lastDataByte = 0\<rparr>"

definition EMBENET_BRT_Init :: "brt_state \<Rightarrow> brt_state" where
  "EMBENET_BRT_Init s =
     s\<lparr>inputRingBufferDesc := RingBuffer_Init (inputRingBufferDesc s) INPUT_RING_BUFFER_SIZE,
       outputRingBufferDesc := RingBuffer_Init (outputRingBufferDesc s) OUTPUT_RING_BUFFER_SIZE,
       isTransmitting := False\<rparr>"

subsection \<open>Transmit path\<close>

definition uartWrite :: "uint8_t \<Rightarrow> brt_state \<Rightarrow> brt_state" where
  "uartWrite data s =
     (if isTransmitting s = True
      then s\<lparr>outputRingBufferDesc := fst (RingBuffer_PutChar (outputRingBufferDesc s) data)\<rparr>
      else s\<lparr>isTransmitting := True, uart_tx := uart_tx s @ [data]\<rparr>)"

definition tx_isr :: "brt_state \<Rightarrow> brt_state" where
  "tx_isr s =
     (case RingBuffer_GetChar (outputRingBufferDesc s) of
        (rb, Some chunk) \<Rightarrow> s\<lparr>outputRingBufferDesc := rb, uart_tx := uart_tx s @ [chunk]\<rparr>
      | (rb, None) \<Rightarrow> s\<lparr>outputRingBufferDesc := rb, isTransmitting := False\<rparr>)"

definition rx_isr :: "uint8_t \<Rightarrow> brt_state \<Rightarrow> brt_state" where
  "rx_isr rxByte s =
     s\<lparr>inputRingBufferDesc := fst (RingBuffer_PutChar (inputRingBufferDesc s) rxByte)\<rparr>"

text \<open>
  The encoder touches the state only through \<open>uartWrite\<close>. \<open>putFlag\<close>, \<open>putByte\<close>,
  \<open>EMBENET_BRT_Send\<close> and \<open>EMBENET_BRT_SendRaw\<close> are therefore modelled by the bytes
  they pass to \<open>uartWrite\<close>, in call order; \<open>uartWrite_bytes\<close> is the effect of those
  calls on the state. Reading \<open>packet[i]\<close> beyond the object fails.
\<close>

definition uartWrite_bytes :: "uint8_t list \<Rightarrow> brt_state \<Rightarrow> brt_state" where
  "uartWrite_bytes bs s = fold uartWrite bs s"

definition putFlag :: "uint8_t \<Rightarrow> uint8_t list" where
  "putFlag flag = [flag]"

definition putByte :: "uint8_t \<Rightarrow> uint8_t list" where
  "putByte byte =
     (if byte = HDLC_FLAG \<or> byte = HDLC_ESCAPE
      then [HDLC_ESCAPE, byte XOR HDLC_ESCAPE_MASK]
      else [byte])"

fun Send_loop :: "uint8_t list \<Rightarrow> uint16_t \<times> uint8_t list \<Rightarrow> uint16_t \<times> uint8_t list" where
  "Send_loop [] (finalCrc, wire) = (finalCrc, wire)"
| "Send_loop (b # bs) (finalCrc, wire) =
     Send_loop bs (openhdlc_crc finalCrc b, wire @ putByte b)"

definition EMBENET_BRT_Send :: "uint8_t list \<Rightarrow> nat \<Rightarrow> uint8_t list option" where
  "EMBENET_BRT_Send packet packetLength =
     (if length packet < packetLength then None
      else
        (case Send_loop (take packetLength packet) (HDLC_CRCINIT, putFlag HDLC_FLAG) of
           (crc, wire) \<Rightarrow>
             (let finalCrc = NOT crc
              in Some (wire
                       @ putByte (ucast (drop_bit 0 finalCrc AND 0xff))
                       @ putByte (ucast (drop_bit 8 finalCrc AND 0xff))
                       @ putFlag HDLC_FLAG))))"

definition EMBENET_BRT_SendRaw :: "uint8_t list \<Rightarrow> nat \<Rightarrow> uint8_t list option" where
  "EMBENET_BRT_SendRaw data dataLength =
     (if length data < dataLength then None else Some (take dataLength data))"

subsection \<open>Receive path\<close>

text \<open>
  \<open>store_inputFrame\<close> is the statement \<open>inputFrame[inputFrameDataIndex++] = v\<close>: it
  fails when the index is outside the array. \<open>Receive_byte\<close> is the body of the loop
  of \<open>EMBENET_BRT_Receive\<close> after the byte has been taken from the queue; it returns the
  new statics and the new value of \<open>frameComplete\<close>.
\<close>

definition store_inputFrame :: "decoder \<Rightarrow> uint8_t \<Rightarrow> decoder option" where
  "store_inputFrame d v =
     (if inputFrameDataIndex d < length (inputFrame d)
      then Some (d\<lparr>inputFrame := (inputFrame d)[inputFrameDataIndex d := v],
                   inputFrameDataIndex := inputFrameDataIndex d + 1\<rparr>)
      else None)"

definition Receive_byte :: "decoder \<Rightarrow> uint8_t \<Rightarrow> (decoder \<times> bool) option" where
  "Receive_byte d dataByte =
     map_option (\<lambda>(d', frameComplete). (d'\<lparr>lastDataByte := dataByte\<rparr>, frameComplete))
       (if False = inputFrameReceiving d then
          (if HDLC_FLAG = dataByte
           then Some (d\<lparr>inputFrameReceiving := True, inputFrameDataIndex := 0\<rparr>, False)
           else Some (d, False))
        else if HDLC_FLAG = dataByte then
          (if HDLC_FLAG \<noteq> lastDataByte d then
             (if inputFrameDataIndex d > 2
              then Some (d\<lparr>inputFrameReceiving := False\<rparr>, True)
              else Some (d\<lparr>inputFrameReceiving := True, inputFrameDataIndex := 0\<rparr>, False))
           else Some (d\<lparr>inputFrameReceiving := True, inputFrameDataIndex := 0\<rparr>, False))
        else if inputFrameDataIndex d < EMBENET_BRT_MAX_FRAME_SIZE then
          (if HDLC_ESCAPE \<noteq> dataByte then
             (if HDLC_ESCAPE \<noteq> lastDataByte d
              then map_option (\<lambda>d'. (d', False)) (store_inputFrame d dataByte)
              else map_option (\<lambda>d'. (d', False))
                     (store_inputFrame d (dataByte XOR HDLC_ESCAPE_MASK)))
           else Some (d, False))
        else Some (d\<lparr>inputFrameReceiving := False, inputFrameDataIndex := 0\<rparr>, False))"

text \<open>
  The loop \<open>while (RingBuffer_GetLen(&inputRingBufferDesc) > 0 && frameComplete == false)\<close>.
  The source ignores the result of \<open>RingBuffer_GetChar\<close>; had the queue been empty,
  \<open>dataByte\<close> would be used uninitialised, which is a failure here.
\<close>

function Receive_loop ::
  "decoder \<Rightarrow> RingBuffer \<Rightarrow> bool \<Rightarrow> (decoder \<times> RingBuffer \<times> bool) option" where
  "Receive_loop d rb frameComplete =
     (if RingBuffer_GetLen rb > 0 \<and> frameComplete = False then
        (case RingBuffer_GetChar rb of
           (rb', None) \<Rightarrow> None
         | (rb', Some dataByte) \<Rightarrow>
             (case Receive_byte d dataByte of
                None \<Rightarrow> None
              | Some (d', frameComplete') \<Rightarrow> Receive_loop d' rb' frameComplete'))
      else Some (d, rb, frameComplete))"
  by pat_completeness auto
termination
  by (relation "measure (\<lambda>(d, rb, frameComplete). length (content rb))")
     (auto simp: RingBuffer_GetChar_def split: list.splits)

text \<open>
  \<open>memcpy dest src n\<close> overwrites the first \<open>n\<close> bytes of \<open>dest\<close>; it fails when
  either object is shorter than \<open>n\<close>.
\<close>

definition memcpy :: "uint8_t list \<Rightarrow> uint8_t list \<Rightarrow> nat \<Rightarrow> uint8_t list option" where
  "memcpy dest src n =
     (if n \<le> length dest \<and> n \<le> length src then Some (take n src @ drop n dest) else None)"

text \<open>
  \<open>EMBENET_BRT_Receive packetBuffer packetBufferSize s\<close> returns the new state, the new
  contents of the caller's buffer and the returned size. The CRC loop reads
  \<open>inputFrame[0 .. inputFrameDataIndex - 3]\<close> and the comparison reads the two bytes
  after them; the model fails where those reads would leave the array (an index below 2
  makes the unsigned subtraction wrap).
\<close>

definition EMBENET_BRT_Receive ::
  "uint8_t list \<Rightarrow> nat \<Rightarrow> brt_state \<Rightarrow> (brt_state \<times> uint8_t list \<times> nat) option" where
  "EMBENET_BRT_Receive packetBuffer packetBufferSize s =
     (case Receive_loop (Receive_statics s) (inputRingBufferDesc s) False of
        None \<Rightarrow> None
      | Some (d, rb, frameComplete) \<Rightarrow>
          if True = frameComplete \<and> inputFrameDataIndex d > 0 then
            (if inputFrameDataIndex d < 2 \<or> length (inputFrame d) < inputFrameDataIndex d
             then None
             else
               (let crc = NOT (foldl openhdlc_crc HDLC_CRCINIT
                                 (take (inputFrameDataIndex d - 2) (inputFrame d)));
                    restart = s\<lparr>inputRingBufferDesc := rb,
                                Receive_statics :=
                                  d\<lparr>inputFrameReceiving := True, inputFrameDataIndex := 0\<rparr>\<rparr>
                in
                  if drop_bit 0 crc AND 0xff = ucast (inputFrame d ! (inputFrameDataIndex d - 2))
                     \<and> drop_bit 8 crc AND 0xff
                         = ucast (inputFrame d ! (inputFrameDataIndex d - 1))
                  then
                    (let returnSize = inputFrameDataIndex d - 2
                     in if packetBufferSize \<ge> returnSize
                        then map_option (\<lambda>buf. (restart, buf, returnSize))
                               (memcpy packetBuffer (inputFrame d) returnSize)
                        else map_option (\<lambda>buf. (restart, buf, 0))
                               (memcpy packetBuffer (inputFrame d) packetBufferSize))
                  else Some (restart, packetBuffer, 0)))
          else Some (s\<lparr>inputRingBufferDesc := rb, Receive_statics := d\<rparr>, packetBuffer, 0))"

text \<open>
  \<open>EMBENET_BRT_ReceiveRaw\<close>: \<open>off\<close> is \<open>dataBytes - data\<close>. \<open>RingBuffer_GetChar\<close>
  writes the byte it removes through \<open>dataBytes\<close>; that write fails outside the object
  \<open>data\<close>.
\<close>

function ReceiveRaw_loop ::
  "RingBuffer \<Rightarrow> uint8_t list \<Rightarrow> nat \<Rightarrow> nat \<Rightarrow> (RingBuffer \<times> uint8_t list \<times> nat) option" where
  "ReceiveRaw_loop rb data dataBufferSize off =
     (case RingBuffer_GetChar rb of
        (rb', None) \<Rightarrow> Some (rb', data, off)
      | (rb', Some c) \<Rightarrow>
          if off < length data then
            (if off + 1 \<ge> dataBufferSize
             then Some (rb', data[off := c], off + 1)
             else ReceiveRaw_loop rb' (data[off := c]) dataBufferSize (off + 1))
          else None)"
  by pat_completeness auto
termination
  by (relation "measure (\<lambda>(rb, data, dataBufferSize, off). length (content rb))")
     (auto simp: RingBuffer_GetChar_def split: list.splits)

definition EMBENET_BRT_ReceiveRaw ::
  "uint8_t list \<Rightarrow> nat \<Rightarrow> brt_state \<Rightarrow> (brt_state \<times> uint8_t list \<times> nat) option" where
  "EMBENET_BRT_ReceiveRaw data dataBufferSize s =
     map_option (\<lambda>(rb, data', off). (s\<lparr>inputRingBufferDesc := rb\<rparr>, data', off))
       (ReceiveRaw_loop (inputRingBufferDesc s) data dataBufferSize 0)"

definition EMBENET_BRT_IsBusy :: "brt_state \<Rightarrow> bool" where
  "EMBENET_BRT_IsBusy s = isTransmitting s"

text \<open>
  The states reachable from \<open>EMBENET_BRT_Init\<close> by \<open>uartWrite\<close> and \<open>tx_isr\<close> steps.
\<close>

inductive_set tx_reachable :: "brt_state set" where
  after_init: "EMBENET_BRT_Init s \<in> tx_reachable"
| after_uartWrite: "s \<in> tx_reachable \<Longrightarrow> uartWrite data s \<in> tx_reachable"
| after_tx_isr: "s \<in> tx_reachable \<Longrightarrow> tx_isr s \<in> tx_reachable"

section \<open>Critical section (embenet\_critical\_section.c)\<close>

text \<open>
  \<open>PRIMASK\<close> is the interrupt mask register of the core: 0 when interrupts are enabled,
  1 when they are disabled. \<open>irqNestCounter\<close> is a C \<open>int\<close>; incrementing it beyond
  \<open>INT_MAX\<close> or decrementing it below \<open>INT_MIN\<close> is undefined, which is a failure
  (\<open>None\<close>) here.
\<close>

record cs_state =
  irqNestCounter :: int
  previousIrqState :: uint32_t
  PRIMASK :: uint32_t

definition INT_MAX :: int where
  "INT_MAX = 2147483647"

definition INT_MIN :: int where
  "INT_MIN = - 2147483648"

definition get_PRIMASK :: "cs_state \<Rightarrow> uint32_t" where
  "get_PRIMASK c = PRIMASK c"

definition disable_irq :: "cs_state \<Rightarrow> cs_state" where
  "disable_irq c = c\<lparr>PRIMASK := 1\<rparr>"

definition enable_irq :: "cs_state \<Rightarrow> cs_state" where
  "enable_irq c = c\<lparr>PRIMASK := 0\<rparr>"

definition interrupts_enabled :: "cs_state \<Rightarrow> bool" where
  "interrupts_enabled c = (PRIMASK c = 0)"

definition EMBENET_CRITICAL_SECTION_Enter :: "cs_state \<Rightarrow> cs_state option" where
  "EMBENET_CRITICAL_SECTION_Enter c =
     (let irqState = get_PRIMASK c;
          c1 = disable_irq c;
          c2 = (if 0 = irqNestCounter c1 then c1\<lparr>previousIrqState := irqState\<rparr> else c1)
      in if irqNestCounter c2 = INT_MAX then None
         else Some (c2\<lparr>irqNestCounter := irqNestCounter c2 + 1\<rparr>))"

definition EMBENET_CRITICAL_SECTION_Exit :: "cs_state \<Rightarrow> cs_state option" where
  "EMBENET_CRITICAL_SECTION_Exit c =
     (if irqNestCounter c = INT_MIN then None
      else
        (let c1 = c\<lparr>irqNestCounter := irqNestCounter c - 1\<rparr>;
             c2 = (if irqNestCounter c1 < 0 then c1\<lparr>irqNestCounter := 0\<rparr> else c1)
         in Some (if 0 = irqNestCounter c2 \<and> 0 = previousIrqState c2
                  then enable_irq c2 else c2)))"

datatype cs_call = Enter | Exit

fun cs_step :: "cs_call \<Rightarrow> cs_state \<Rightarrow> cs_state option" where
  "cs_step Enter c = EMBENET_CRITICAL_SECTION_Enter c"
| "cs_step Exit c = EMBENET_CRITICAL_SECTION_Exit c"

fun cs_run :: "cs_call list \<Rightarrow> cs_state \<Rightarrow> cs_state option" where
  "cs_run [] c = Some c"
| "cs_run (x # xs) c = (case cs_step x c of None \<Rightarrow> None | Some c' \<Rightarrow> cs_run xs c')"

subsection \<open>Auxiliary notions for the statements below\<close>

text \<open>
  \<open>stuff M\<close> is what \<open>putByte\<close> emits for the bytes of \<open>M\<close>, one after the other;
  \<open>frame_crc P\<close> is the complemented CRC that \<open>EMBENET_BRT_Send\<close> and
  \<open>EMBENET_BRT_Receive\<close> compute over a payload, and \<open>crc_bytes P\<close> its low and high
  byte. Between two delimiters the decoder reads the stream as a sequence of units, a
  \<open>Plain\<close> byte or an \<open>Escaped\<close> one (the byte that follows an ESCAPE); \<open>unit_bytes\<close>
  are the bytes of a unit on the wire, \<open>unit_value\<close> is the byte it stands for, and
  \<open>unit_of m\<close> is the unit that \<open>putByte m\<close> emits. \<open>absorb d us\<close> is the decoder
  after it has stored the units \<open>us\<close>. \<open>decoder_inv\<close> is the array bound of \<open>inputFrame\<close> together with the
  range of its index. \<open>power_on\<close> is the module before \<open>EMBENET_BRT_Init\<close>, with zeroed
  statics, and \<open>with_inbound q s\<close> is \<open>s\<close> with the bytes \<open>q\<close> waiting in the inbound
  queue. \<open>full_decoder\<close> is a decoder that is receiving with its accumulator full.
\<close>

definition stuff :: "uint8_t list \<Rightarrow> uint8_t list" where
  "stuff M = concat (map putByte M)"

definition frame_crc :: "uint8_t list \<Rightarrow> uint16_t" where
  "frame_crc P = NOT (foldl openhdlc_crc HDLC_CRCINIT P)"

definition crc_bytes :: "uint8_t list \<Rightarrow> uint8_t list" where
  "crc_bytes P = [ucast (drop_bit 0 (frame_crc P) AND 0xff), ucast (drop_bit 8 (frame_crc P) AND 0xff)]"

datatype wire_unit = Plain uint8_t | Escaped uint8_t

fun unit_bytes :: "wire_unit \<Rightarrow> uint8_t list" where
  "unit_bytes (Plain b) = [b]"
| "unit_bytes (Escaped x) = [HDLC_ESCAPE, x]"

fun unit_raw :: "wire_unit \<Rightarrow> uint8_t" where
  "unit_raw (Plain b) = b"
| "unit_raw (Escaped x) = x"

fun unit_value :: "wire_unit \<Rightarrow> uint8_t" where
  "unit_value (Plain b) = b"
| "unit_value (Escaped x) = x XOR HDLC_ESCAPE_MASK"

definition unit_ok :: "wire_unit \<Rightarrow> bool" where
  "unit_ok u \<longleftrightarrow> unit_raw u \<noteq> HDLC_FLAG \<and> unit_raw u \<noteq> HDLC_ESCAPE"

definition unit_of :: "uint8_t \<Rightarrow> wire_unit" where
  "unit_of m = (if m = HDLC_FLAG \<or> m = HDLC_ESCAPE then Escaped (m XOR HDLC_ESCAPE_MASK)
                else Plain m)"

definition wire_bytes :: "wire_unit list \<Rightarrow> uint8_t list" where
  "wire_bytes us = concat (map unit_bytes us)"

definition absorb1 :: "decoder \<Rightarrow> wire_unit \<Rightarrow> decoder" where
  "absorb1 d u =
     d\<lparr>inputFrame := (inputFrame d)[inputFrameDataIndex d := unit_value u],
       inputFrameDataIndex := inputFrameDataIndex d + 1,
       lastDataByte := unit_raw u\<rparr>"

definition absorb :: "decoder \<Rightarrow> wire_unit list \<Rightarrow> decoder" where
  "absorb d us = foldl absorb1 d us"

definition power_on :: brt_state where
  "power_on =
     \<lparr>inputRingBufferDesc = \<lparr>content = [], capacity = 0, policy = RejectWhenFull\<rparr>,
      outputRingBufferDesc = \<lparr>content = [], capacity = 0, policy = RejectWhenFull\<rparr>,
      isTransmitting = False, uart_tx = [], Receive_statics = decoder_init\<rparr>"

definition decoder_inv :: "decoder \<Rightarrow> bool" where
  "decoder_inv d \<longleftrightarrow>
     length (inputFrame d) = EMBENET_BRT_MAX_FRAME_SIZE
     \<and> inputFrameDataIndex d \<le> EMBENET_BRT_MAX_FRAME_SIZE"

definition with_inbound :: "uint8_t list \<Rightarrow> brt_state \<Rightarrow> brt_state" where
  "with_inbound q s = s\<lparr>inputRingBufferDesc := (inputRingBufferDesc s)\<lparr>content := q\<rparr>\<rparr>"

definition full_decoder :: decoder where
  "full_decoder = decoder_init\<lparr>inputFrameReceiving := True,
                                inputFrameDataIndex := EMBENET_BRT_MAX_FRAME_SIZE\<rparr>"

section \<open>Properties of the CRC engine\<close>

lemma mask8_32: "(0xff :: uint32_t) = mask 8"
  by (simp add: mask_eq_exp_minus_1)

lemma mask8_16: "(0xff :: uint16_t) = mask 8"
  by (simp add: mask_eq_exp_minus_1)

lemma unat_ucast_16_32: "unat (ucast (w :: uint16_t) :: uint32_t) = unat w"
proof -
  have "unat w < 2 ^ 16"
    using unsigned_less [of w] by simp
  then have "unat w < 2 ^ 32"
    by simp
  then show ?thesis
    by (simp add: unsigned_ucast_eq take_bit_nat_eq_self)
qed

lemma promoted_index:
  "unat (((ucast (crc :: uint16_t) :: uint32_t) XOR ucast (byte :: uint8_t)) AND 0xff)
   = unat ((crc XOR ucast byte) AND 0xff)"
proof -
  have "((ucast crc :: uint32_t) XOR ucast byte) AND 0xff
        = ucast ((crc XOR ucast byte) AND 0xff)"
    unfolding mask8_32 mask8_16
    by (rule bit_word_eqI) (auto simp add: bit_simps)
  then show ?thesis
    by (simp add: unat_ucast_16_32)
qed

text \<open>The promotions to \<open>int\<close> and the conversion back do not change the 16-bit value.\<close>

lemma openhdlc_crc_16:
  "openhdlc_crc crc byte = drop_bit 8 crc XOR fcstab ! unat ((crc XOR ucast byte) AND 0xff)"
  unfolding openhdlc_crc_def promoted_index
  by (rule bit_word_eqI) (auto simp add: bit_simps)

lemma crc16_rounds_8:
  "(crc16_round_spec ^^ 8) v =
     crc16_round_spec (crc16_round_spec (crc16_round_spec (crc16_round_spec
       (crc16_round_spec (crc16_round_spec (crc16_round_spec (crc16_round_spec v)))))))"
  by (simp add: eval_nat_numeral)

lemma fcstab_spec_unfold:
  "fcstab_spec i =
     crc16_round_spec (crc16_round_spec (crc16_round_spec (crc16_round_spec
       (crc16_round_spec (crc16_round_spec (crc16_round_spec (crc16_round_spec
         (of_nat i))))))))"
  by (simp add: fcstab_spec_def crc16_rounds_8)

lemma fcstab_is_spec_table: "map fcstab_spec [0..<256] = fcstab"
  by (simp add: upt_rec [of _ "numeral _"] upt_rec [of 0] fcstab_spec_unfold
      crc16_round_spec_def fcstab_def)

lemma length_fcstab: "length fcstab = 256"
  by (simp add: fcstab_def)

lemma fcstab_nth: "i < 256 \<Longrightarrow> fcstab ! i = fcstab_spec i"
proof -
  assume "i < 256"
  then have "map fcstab_spec [0..<256] ! i = fcstab_spec i"
    by (simp only: nth_map_upt) simp
  then show ?thesis
    by (simp only: fcstab_is_spec_table)
qed

text \<open>
  C5. \<open>openhdlc_crc crc byte\<close> is \<open>(crc >> 8) XOR fcstab[(crc XOR byte) & 0xFF]\<close> for
  every 16-bit \<open>crc\<close> and 8-bit \<open>byte\<close>, the table has 256 entries, and every entry
  \<open>fcstab[i]\<close> is the result of eight least-significant-bit-first shift-and-reduce rounds
  with polynomial 0x8408 starting from \<open>i\<close>.
\<close>

theorem openhdlc_crc_table_step:
  "(\<forall>crc byte. openhdlc_crc crc byte
                 = drop_bit 8 crc XOR fcstab ! unat ((crc XOR ucast byte) AND 0xff))
   \<and> length fcstab = 256
   \<and> (\<forall>i < 256. fcstab ! i = fcstab_spec i)"
  using openhdlc_crc_16 length_fcstab fcstab_nth by blast

theorem openhdlc_crc_table_step_witness:
  "(128 :: nat) < 256 \<and> fcstab ! 128 = 0x8408 \<and> fcstab_spec 128 = 0x8408
   \<and> openhdlc_crc 0xffff 0x01 = 0x1e0e"
proof -
  have "fcstab ! 128 = fcstab_spec 128"
    using openhdlc_crc_table_step by simp
  moreover have "fcstab ! 128 = 0x8408"
    by (simp add: fcstab_def)
  moreover have "openhdlc_crc 0xffff 0x01 = 0x1e0e"
    by (simp add: openhdlc_crc_def fcstab_def)
  ultimately show ?thesis
    by simp
qed

section \<open>The frame encoder\<close>

text \<open>
  C4. For the payload 01 7E 7D 02 the encoder emits 7E 01 7D 5E 7D 5D 02 08 13 7E: the
  two delimiters are literal, 7D 5E and 7D 5D are what \<open>putByte\<close> emits for 7E and 7D,
  and 08 13 are the low and the high byte of the CRC-16/X-25 of the payload, 0x1308,
  neither of which needs escaping.
\<close>

theorem send_concrete_scenario:
  "EMBENET_BRT_Send [0x01, 0x7e, 0x7d, 0x02] 4
     = Some [0x7e, 0x01, 0x7d, 0x5e, 0x7d, 0x5d, 0x02, 0x08, 0x13, 0x7e]
   \<and> putByte 0x7e = [0x7d, 0x5e] \<and> putByte 0x7d = [0x7d, 0x5d]
   \<and> putByte 0x08 = [0x08] \<and> putByte 0x13 = [0x13]
   \<and> putFlag HDLC_FLAG = [0x7e]
   \<and> crc16_x25_spec [0x01, 0x7e, 0x7d, 0x02] = 0x1308"
proof -
  have "crc16_x25_spec [0x01, 0x7e, 0x7d, 0x02] = 0x1308"
    by (simp add: crc16_x25_spec_def crc16_rounds_8 crc16_round_spec_def)
  moreover have
    "EMBENET_BRT_Send [0x01, 0x7e, 0x7d, 0x02] 4
       = Some [0x7e, 0x01, 0x7d, 0x5e, 0x7d, 0x5d, 0x02, 0x08, 0x13, 0x7e]
     \<and> putByte 0x7e = [0x7d, 0x5e] \<and> putByte 0x7d = [0x7d, 0x5d]
     \<and> putByte 0x08 = [0x08] \<and> putByte 0x13 = [0x13]
     \<and> putFlag HDLC_FLAG = [0x7e]"
    by (simp add: EMBENET_BRT_Send_def putFlag_def putByte_def HDLC_FLAG_def HDLC_ESCAPE_def
        HDLC_ESCAPE_MASK_def HDLC_CRCINIT_def openhdlc_crc_def fcstab_def)
  ultimately show ?thesis
    by blast
qed

section \<open>The frame decoder\<close>

declare Receive_loop.simps [simp del]

lemma Send_loop_eq:
  "Send_loop bs (c, w) = (foldl openhdlc_crc c bs, w @ stuff bs)"
  by (induction bs arbitrary: c w) (simp_all add: stuff_def)

lemma Send_eq:
  "EMBENET_BRT_Send P (length P) = Some (HDLC_FLAG # stuff (P @ crc_bytes P) @ [HDLC_FLAG])"
  by (simp add: EMBENET_BRT_Send_def Send_loop_eq putFlag_def stuff_def crc_bytes_def
      frame_crc_def Let_def)

lemma loop_nil: "content rb = [] \<Longrightarrow> Receive_loop d rb fc = Some (d, rb, fc)"
  by (simp add: Receive_loop.simps RingBuffer_GetLen_def)

lemma loop_done: "Receive_loop d rb True = Some (d, rb, True)"
  by (simp add: Receive_loop.simps)

lemma loop_cons:
  "content rb = b # q \<Longrightarrow>
   Receive_loop d rb False =
     (case Receive_byte d b of None \<Rightarrow> None
      | Some (d', fc) \<Rightarrow> Receive_loop d' (rb\<lparr>content := q\<rparr>) fc)"
  by (subst Receive_loop.simps) (simp add: RingBuffer_GetLen_def RingBuffer_GetChar_def)

lemma esc_flag_facts:
  "HDLC_FLAG \<noteq> HDLC_ESCAPE" "HDLC_FLAG XOR HDLC_ESCAPE_MASK \<noteq> HDLC_FLAG"
  "HDLC_FLAG XOR HDLC_ESCAPE_MASK \<noteq> HDLC_ESCAPE"
  "HDLC_ESCAPE XOR HDLC_ESCAPE_MASK \<noteq> HDLC_FLAG"
  "HDLC_ESCAPE XOR HDLC_ESCAPE_MASK \<noteq> HDLC_ESCAPE"
  "(x XOR HDLC_ESCAPE_MASK) XOR HDLC_ESCAPE_MASK = x"
  by (simp_all add: HDLC_FLAG_def HDLC_ESCAPE_def HDLC_ESCAPE_MASK_def xor.assoc)

subsection \<open>Units on the wire\<close>

lemma putByte_unit: "putByte m = unit_bytes (unit_of m)"
  by (simp add: putByte_def unit_of_def)

lemma unit_of_ok: "unit_ok (unit_of m)"
  using esc_flag_facts by (auto simp add: unit_of_def unit_ok_def)

lemma unit_of_value: "unit_value (unit_of m) = m"
  by (simp add: unit_of_def esc_flag_facts(6))

lemma stuff_units: "stuff M = wire_bytes (map unit_of M)"
  by (induction M) (simp_all add: stuff_def wire_bytes_def putByte_unit)

lemma wire_bytes_Cons: "wire_bytes (u # us) = unit_bytes u @ wire_bytes us"
  by (simp add: wire_bytes_def)

lemma wire_bytes_Nil: "wire_bytes [] = []"
  by (simp add: wire_bytes_def)

lemma step_unit:
  assumes "inputFrameReceiving d" "lastDataByte d \<noteq> HDLC_ESCAPE"
    "inputFrameDataIndex d < EMBENET_BRT_MAX_FRAME_SIZE"
    "length (inputFrame d) = EMBENET_BRT_MAX_FRAME_SIZE"
    "unit_ok u" "content rb = unit_bytes u @ q"
  shows "Receive_loop d rb False = Receive_loop (absorb1 d u) (rb\<lparr>content := q\<rparr>) False"
proof (cases u)
  case (Plain m)
  with assms(5) have ne: "HDLC_FLAG \<noteq> m" "HDLC_ESCAPE \<noteq> m"
    by (auto simp add: unit_ok_def)
  from Plain assms(6) have c: "content rb = m # q"
    by simp
  from ne assms(1-4) have "Receive_byte d m = Some (absorb1 d u, False)"
    by (simp add: Receive_byte_def store_inputFrame_def absorb1_def Plain)
  then show ?thesis
    by (simp add: loop_cons [OF c])
next
  case (Escaped x)
  with assms(5) have xne: "HDLC_FLAG \<noteq> x" "HDLC_ESCAPE \<noteq> x"
    by (auto simp add: unit_ok_def)
  from Escaped assms(6) have c: "content rb = HDLC_ESCAPE # x # q"
    by simp
  have c2: "content (rb\<lparr>content := x # q\<rparr>) = x # q"
    by simp
  from assms(1-4) esc_flag_facts(1)
  have s1: "Receive_byte d HDLC_ESCAPE = Some (d\<lparr>lastDataByte := HDLC_ESCAPE\<rparr>, False)"
    by (simp add: Receive_byte_def)
  from assms(1-4) xne
  have s2: "Receive_byte (d\<lparr>lastDataByte := HDLC_ESCAPE\<rparr>) x = Some (absorb1 d u, False)"
    by (simp add: Receive_byte_def store_inputFrame_def absorb1_def Escaped)
  show ?thesis
    by (simp add: loop_cons [OF c] s1 loop_cons [OF c2] s2)
qed

lemma absorb1_facts:
  "inputFrameReceiving (absorb1 d u) = inputFrameReceiving d"
  "inputFrameDataIndex (absorb1 d u) = inputFrameDataIndex d + 1"
  "length (inputFrame (absorb1 d u)) = length (inputFrame d)"
  "unit_ok u \<Longrightarrow> lastDataByte (absorb1 d u) \<noteq> HDLC_ESCAPE"
  "unit_ok u \<Longrightarrow> lastDataByte (absorb1 d u) \<noteq> HDLC_FLAG"
  by (simp_all add: absorb1_def unit_ok_def)

lemma absorb_Cons: "absorb d (u # us) = absorb (absorb1 d u) us"
  by (simp add: absorb_def)

lemma absorb_Nil: "absorb d [] = d"
  by (simp add: absorb_def)

lemma loop_units:
  assumes "inputFrameReceiving d" "lastDataByte d \<noteq> HDLC_ESCAPE"
    "inputFrameDataIndex d + length us \<le> EMBENET_BRT_MAX_FRAME_SIZE"
    "length (inputFrame d) = EMBENET_BRT_MAX_FRAME_SIZE"
    "\<forall>u \<in> set us. unit_ok u"
    "content rb = wire_bytes us @ q"
  shows "Receive_loop d rb False = Receive_loop (absorb d us) (rb\<lparr>content := q\<rparr>) False"
  using assms
proof (induction us arbitrary: d rb)
  case Nil
  then have "rb\<lparr>content := q\<rparr> = rb"
    by (simp add: wire_bytes_Nil)
  then show ?case
    by (simp add: absorb_Nil)
next
  case (Cons u us)
  from Cons.prems have c: "content rb = unit_bytes u @ (wire_bytes us @ q)"
    by (simp add: wire_bytes_Cons)
  from Cons.prems have lt: "inputFrameDataIndex d < EMBENET_BRT_MAX_FRAME_SIZE"
    by simp
  from Cons.prems have ok: "unit_ok u"
    by simp
  have "Receive_loop d rb False
        = Receive_loop (absorb1 d u) (rb\<lparr>content := wire_bytes us @ q\<rparr>) False"
    by (rule step_unit [OF Cons.prems(1,2) lt Cons.prems(4) ok c])
  also have "\<dots> = Receive_loop (absorb (absorb1 d u) us)
                    ((rb\<lparr>content := wire_bytes us @ q\<rparr>)\<lparr>content := q\<rparr>) False"
    using Cons.prems by (intro Cons.IH) (simp_all add: absorb1_facts)
  finally show ?case
    by (simp add: absorb_Cons)
qed

lemma absorb_facts:
  "inputFrameReceiving (absorb d us) = inputFrameReceiving d"
  "inputFrameDataIndex (absorb d us) = inputFrameDataIndex d + length us"
  "length (inputFrame (absorb d us)) = length (inputFrame d)"
  by (induction us arbitrary: d; simp add: absorb_Nil absorb_Cons absorb1_facts; fail)+

lemma absorb_last:
  "\<forall>u \<in> set us. unit_ok u \<Longrightarrow> lastDataByte d \<noteq> HDLC_FLAG \<or> us \<noteq> [] \<Longrightarrow>
   lastDataByte (absorb d us) \<noteq> HDLC_FLAG"
  by (induction us arbitrary: d) (simp_all add: absorb_Nil absorb_Cons absorb1_facts)

lemma absorb_frame:
  "inputFrameDataIndex d + length us \<le> length (inputFrame d) \<Longrightarrow>
   inputFrame (absorb d us)
     = take (inputFrameDataIndex d) (inputFrame d) @ map unit_value us
       @ drop (inputFrameDataIndex d + length us) (inputFrame d)"
proof (induction us arbitrary: d)
  case Nil
  then show ?case by (simp add: absorb_Nil)
next
  case (Cons u us)
  let ?i = "inputFrameDataIndex d" and ?m = "unit_value u"
  from Cons.prems have lt: "?i < length (inputFrame d)" by simp
  have "inputFrame (absorb (absorb1 d u) us)
        = take (Suc ?i) ((inputFrame d)[?i := ?m]) @ map unit_value us
          @ drop (Suc ?i + length us) ((inputFrame d)[?i := ?m])"
    using Cons.prems Cons.IH [of "absorb1 d u"] by (simp add: absorb1_def)
  also have "take (Suc ?i) ((inputFrame d)[?i := ?m]) = take ?i (inputFrame d) @ [?m]"
    using lt by (simp add: take_Suc_conv_app_nth)
  also have "drop (Suc ?i + length us) ((inputFrame d)[?i := ?m])
             = drop (?i + length (u # us)) (inputFrame d)"
    by simp
  finally show ?case
    by (simp add: absorb_Cons)
qed

subsection \<open>Frame boundaries\<close>

lemma loop_start:
  assumes "\<not> inputFrameReceiving d" "content rb = HDLC_FLAG # q"
  shows "Receive_loop d rb False =
         Receive_loop (d\<lparr>inputFrameReceiving := True, inputFrameDataIndex := 0,
                         lastDataByte := HDLC_FLAG\<rparr>) (rb\<lparr>content := q\<rparr>) False"
  using assms(1) by (simp add: loop_cons [OF assms(2)] Receive_byte_def)

lemma loop_double_flag:
  assumes "inputFrameReceiving d" "lastDataByte d = HDLC_FLAG" "content rb = HDLC_FLAG # q"
  shows "Receive_loop d rb False =
         Receive_loop (d\<lparr>inputFrameReceiving := True, inputFrameDataIndex := 0,
                         lastDataByte := HDLC_FLAG\<rparr>) (rb\<lparr>content := q\<rparr>) False"
  using assms(1,2) by (simp add: loop_cons [OF assms(3)] Receive_byte_def)

lemma loop_end:
  assumes "inputFrameReceiving d" "lastDataByte d \<noteq> HDLC_FLAG" "2 < inputFrameDataIndex d"
    "content rb = HDLC_FLAG # q"
  shows "Receive_loop d rb False =
         Some (d\<lparr>inputFrameReceiving := False, lastDataByte := HDLC_FLAG\<rparr>,
               rb\<lparr>content := q\<rparr>, True)"
proof -
  from assms(2) have "HDLC_FLAG \<noteq> lastDataByte d" by auto
  with assms(1,3) show ?thesis
    by (simp add: loop_cons [OF assms(4)] Receive_byte_def loop_done)
qed

lemma loop_end_short:
  assumes "inputFrameReceiving d" "inputFrameDataIndex d \<le> 2" "content rb = [HDLC_FLAG]"
  shows "Receive_loop d rb False =
         Some (d\<lparr>inputFrameReceiving := True, inputFrameDataIndex := 0,
                 lastDataByte := HDLC_FLAG\<rparr>, rb\<lparr>content := []\<rparr>, False)"
  using assms(1,2) by (simp add: loop_cons [OF assms(3)] Receive_byte_def loop_nil)

lemma loop_frame_from_fresh:
  assumes "inputFrameReceiving d" "inputFrameDataIndex d = 0" "lastDataByte d = HDLC_FLAG"
    "length (inputFrame d) = EMBENET_BRT_MAX_FRAME_SIZE"
    "\<forall>u \<in> set us. unit_ok u"
    "content rb = wire_bytes us @ HDLC_FLAG # rest"
    "2 < length us" "length us \<le> EMBENET_BRT_MAX_FRAME_SIZE"
  shows "\<exists>d'. Receive_loop d rb False = Some (d', rb\<lparr>content := rest\<rparr>, True)
              \<and> inputFrameDataIndex d' = length us
              \<and> take (length us) (inputFrame d') = map unit_value us
              \<and> length (inputFrame d') = EMBENET_BRT_MAX_FRAME_SIZE"
proof -
  let ?d1 = "absorb d us"
  from assms have 1: "Receive_loop d rb False
                      = Receive_loop ?d1 (rb\<lparr>content := HDLC_FLAG # rest\<rparr>) False"
    by (intro loop_units) (simp_all add: esc_flag_facts(1))
  from assms(7) have "us \<noteq> []" by auto
  with assms(5) have l: "lastDataByte ?d1 \<noteq> HDLC_FLAG"
    by (simp add: absorb_last)
  have r: "inputFrameReceiving ?d1" "2 < inputFrameDataIndex ?d1"
    using assms by (simp_all add: absorb_facts)
  have c: "content (rb\<lparr>content := HDLC_FLAG # rest\<rparr>) = HDLC_FLAG # rest"
    by simp
  have 2: "Receive_loop ?d1 (rb\<lparr>content := HDLC_FLAG # rest\<rparr>) False
           = Some (?d1\<lparr>inputFrameReceiving := False, lastDataByte := HDLC_FLAG\<rparr>,
                   rb\<lparr>content := rest\<rparr>, True)"
    using loop_end [OF r(1) l r(2) c] by simp
  have "inputFrame ?d1 = map unit_value us @ drop (length us) (inputFrame d)"
    using assms absorb_frame [of d us] by simp
  then have "take (length us) (inputFrame ?d1) = map unit_value us"
    by simp
  with 1 2 assms show ?thesis
    by (simp add: absorb_facts)
qed

lemma loop_short_from_fresh:
  assumes "inputFrameReceiving d" "inputFrameDataIndex d = 0" "lastDataByte d = HDLC_FLAG"
    "length (inputFrame d) = EMBENET_BRT_MAX_FRAME_SIZE"
    "\<forall>u \<in> set us. unit_ok u"
    "content rb = wire_bytes us @ [HDLC_FLAG]"
    "length us \<le> 2"
  shows "\<exists>d'. Receive_loop d rb False = Some (d', rb\<lparr>content := []\<rparr>, False)"
proof -
  let ?d1 = "absorb d us"
  from assms(7) have "length us \<le> EMBENET_BRT_MAX_FRAME_SIZE"
    by (simp add: EMBENET_BRT_MAX_FRAME_SIZE_def)
  with assms have 1: "Receive_loop d rb False
                      = Receive_loop ?d1 (rb\<lparr>content := [HDLC_FLAG]\<rparr>) False"
    by (intro loop_units) (simp_all add: esc_flag_facts(1))
  have r: "inputFrameReceiving ?d1" "inputFrameDataIndex ?d1 \<le> 2"
    using assms by (simp_all add: absorb_facts)
  have c: "content (rb\<lparr>content := [HDLC_FLAG]\<rparr>) = [HDLC_FLAG]"
    by simp
  show ?thesis
    using 1 loop_end_short [OF r c] by simp
qed

subsection \<open>The CRC comparison and the copy\<close>

lemma ucast_low_byte:
  "(ucast (ucast ((x :: uint16_t) AND 0xff) :: uint8_t) :: uint16_t) = x AND 0xff"
  unfolding mask8_16 by (rule bit_word_eqI) (auto simp add: bit_simps)

lemma ucast_byte_id: "(ucast (ucast (a :: uint8_t) :: uint16_t) :: uint8_t) = a"
  by (rule bit_word_eqI) (auto simp add: bit_simps)

lemma byte_check_iff:
  "((x :: uint16_t) AND 0xff = ucast (a :: uint8_t)) \<longleftrightarrow> a = ucast (x AND 0xff)"
  using ucast_low_byte [of x] ucast_byte_id [of a] by metis

lemma crc_check_iff:
  "(drop_bit 0 (frame_crc P) AND 0xff = ucast a \<and> drop_bit 8 (frame_crc P) AND 0xff = ucast b)
   \<longleftrightarrow> [a, b] = crc_bytes P"
  by (simp add: crc_bytes_def byte_check_iff)

lemma Receive_complete:
  assumes loop: "Receive_loop (Receive_statics s) (inputRingBufferDesc s) False = Some (d, rb, True)"
    and idx: "inputFrameDataIndex d = length P + 2"
    and fr: "take (length P + 2) (inputFrame d) = P @ [a, b]"
    and len: "length P + 2 \<le> length (inputFrame d)"
  shows "EMBENET_BRT_Receive buf n s =
    (let restart = s\<lparr>inputRingBufferDesc := rb,
                     Receive_statics := d\<lparr>inputFrameReceiving := True, inputFrameDataIndex := 0\<rparr>\<rparr>
     in if [a, b] = crc_bytes P then
          (if length P \<le> n
           then map_option (\<lambda>buf'. (restart, buf', length P)) (memcpy buf (inputFrame d) (length P))
           else map_option (\<lambda>buf'. (restart, buf', 0)) (memcpy buf (inputFrame d) n))
        else Some (restart, buf, 0))"
proof -
  have "take (length P) (take (length P + 2) (inputFrame d)) = P"
    by (simp only: fr) simp
  then have tk: "take (length P) (inputFrame d) = P"
    by simp
  have "take (length P + 2) (inputFrame d) ! length P = a"
    "take (length P + 2) (inputFrame d) ! (length P + 1) = b"
    by (simp_all only: fr) (simp_all add: nth_append)
  then have nth: "inputFrame d ! length P = a" "inputFrame d ! Suc (length P) = b"
    by simp_all
  have crc: "NOT (foldl openhdlc_crc HDLC_CRCINIT P) = frame_crc P"
    by (simp add: frame_crc_def)
  show ?thesis
    using len
    by (simp add: EMBENET_BRT_Receive_def loop idx tk nth crc Let_def crc_check_iff del: drop_bit_0)
qed

lemma memcpy_frame:
  assumes "take (length P) src = P" "k \<le> length P" "k \<le> length buf" "length P \<le> length src"
  shows "memcpy buf src k = Some (take k P @ drop k buf)"
proof -
  have "take k src = take k (take (length P) src)"
    using assms(2) by (simp add: min_def)
  then show ?thesis
    using assms by (simp add: memcpy_def)
qed

text \<open>
  One call of \<open>EMBENET_BRT_Receive\<close> on a delimited sequence of units that stand for the
  bytes \<open>P @ [a, b]\<close>: the payload is delivered when \<open>a, b\<close> is the CRC of \<open>P\<close> and
  the buffer is large enough, a prefix of it is copied when the CRC is right and the
  buffer is too small, and nothing is copied when the CRC is wrong.
\<close>

lemma Receive_units_frame:
  assumes pre: "Receive_loop (Receive_statics s) (inputRingBufferDesc s) False
                = Receive_loop d1 rb1 False"
    and fresh: "inputFrameReceiving d1" "inputFrameDataIndex d1 = 0" "lastDataByte d1 = HDLC_FLAG"
      "length (inputFrame d1) = EMBENET_BRT_MAX_FRAME_SIZE"
    and ok: "\<forall>u \<in> set us. unit_ok u"
    and wire: "content rb1 = wire_bytes us @ HDLC_FLAG # rest"
    and val: "map unit_value us = P @ [a, b]"
    and len: "1 \<le> length P" "length P + 2 \<le> EMBENET_BRT_MAX_FRAME_SIZE"
    and buf: "n \<le> length buf"
  shows "\<exists>s'. EMBENET_BRT_Receive buf n s =
               Some (s', if [a, b] = crc_bytes P
                         then (if length P \<le> n then P @ drop (length P) buf
                               else take n P @ drop n buf)
                         else buf,
                     if [a, b] = crc_bytes P \<and> length P \<le> n then length P else 0)
              \<and> content (inputRingBufferDesc s') = rest"
proof -
  have lus: "length us = length P + 2"
    using arg_cong [OF val, of length] by simp
  have "\<exists>d'. Receive_loop d1 rb1 False = Some (d', rb1\<lparr>content := rest\<rparr>, True)
              \<and> inputFrameDataIndex d' = length us
              \<and> take (length us) (inputFrame d') = map unit_value us
              \<and> length (inputFrame d') = EMBENET_BRT_MAX_FRAME_SIZE"
    using fresh ok wire len lus by (intro loop_frame_from_fresh) auto
  then obtain d' where d': "Receive_loop d1 rb1 False = Some (d', rb1\<lparr>content := rest\<rparr>, True)"
      "inputFrameDataIndex d' = length us" "take (length us) (inputFrame d') = map unit_value us"
      "length (inputFrame d') = EMBENET_BRT_MAX_FRAME_SIZE"
    by blast
  have loop: "Receive_loop (Receive_statics s) (inputRingBufferDesc s) False
              = Some (d', rb1\<lparr>content := rest\<rparr>, True)"
    using pre d'(1) by simp
  have idx: "inputFrameDataIndex d' = length P + 2"
    using d'(2) lus by simp
  have fr: "take (length P + 2) (inputFrame d') = P @ [a, b]"
    using d'(3) lus val by simp
  have le: "length P + 2 \<le> length (inputFrame d')"
    using d'(4) len by simp
  have tk: "take (length P) (inputFrame d') = P"
  proof -
    have "take (length P) (take (length P + 2) (inputFrame d')) = P"
      by (simp only: fr) simp
    then show ?thesis by simp
  qed
  have lp: "length P \<le> length (inputFrame d')"
    using le by simp
  note rc = Receive_complete [OF loop idx fr le, of buf n]
  show ?thesis
  proof (cases "[a, b] = crc_bytes P")
    case False
    with rc show ?thesis
      by (simp add: Let_def)
  next
    case crc: True
    show ?thesis
    proof (cases "length P \<le> n")
      case True
      then have "memcpy buf (inputFrame d') (length P) = Some (P @ drop (length P) buf)"
        using memcpy_frame [OF tk _ _ lp, of "length P" buf] buf by simp
      with True crc rc show ?thesis
        by (simp add: Let_def)
    next
      case False
      then have "memcpy buf (inputFrame d') n = Some (take n P @ drop n buf)"
        using memcpy_frame [OF tk _ _ lp, of n buf] buf by simp
      with False crc rc show ?thesis
        by (simp add: Let_def)
    qed
  qed
qed

lemma Receive_units_short:
  assumes pre: "Receive_loop (Receive_statics s) (inputRingBufferDesc s) False
                = Receive_loop d1 rb1 False"
    and fresh: "inputFrameReceiving d1" "inputFrameDataIndex d1 = 0" "lastDataByte d1 = HDLC_FLAG"
      "length (inputFrame d1) = EMBENET_BRT_MAX_FRAME_SIZE"
    and ok: "\<forall>u \<in> set us. unit_ok u"
    and wire: "content rb1 = wire_bytes us @ [HDLC_FLAG]"
    and len: "length us \<le> 2"
  shows "\<exists>s'. EMBENET_BRT_Receive buf n s = Some (s', buf, 0)"
proof -
  obtain d' where "Receive_loop d1 rb1 False = Some (d', rb1\<lparr>content := []\<rparr>, False)"
    using loop_short_from_fresh [OF fresh ok wire len] by blast
  with pre show ?thesis
    by (simp add: EMBENET_BRT_Receive_def)
qed

lemma Receive_frame_tail:
  assumes pre: "Receive_loop (Receive_statics s) (inputRingBufferDesc s) False
                = Receive_loop d1 rb1 False"
    and fresh: "inputFrameReceiving d1" "inputFrameDataIndex d1 = 0" "lastDataByte d1 = HDLC_FLAG"
      "length (inputFrame d1) = EMBENET_BRT_MAX_FRAME_SIZE"
    and wire: "content rb1 = stuff (P @ crc_bytes P) @ HDLC_FLAG # rest"
    and len: "1 \<le> length P" "length P + 2 \<le> EMBENET_BRT_MAX_FRAME_SIZE"
    and buf: "n \<le> length buf"
  shows "\<exists>s'. EMBENET_BRT_Receive buf n s =
               Some (s', if length P \<le> n then P @ drop (length P) buf else take n P @ drop n buf,
                     if length P \<le> n then length P else 0)
              \<and> content (inputRingBufferDesc s') = rest"
proof -
  let ?us = "map unit_of (P @ crc_bytes P)"
  obtain a b where ab: "crc_bytes P = [a, b]"
    by (simp add: crc_bytes_def)
  have ok: "\<forall>u \<in> set ?us. unit_ok u"
    by (auto simp add: unit_of_ok)
  have w: "content rb1 = wire_bytes ?us @ HDLC_FLAG # rest"
    using wire by (simp only: stuff_units)
  have v: "map unit_value ?us = P @ [a, b]"
    by (simp add: unit_of_value comp_def ab)
  show ?thesis
    using Receive_units_frame [OF pre fresh ok w v len buf] ab by simp
qed

lemma decoder_init_facts:
  "\<not> inputFrameReceiving decoder_init"
  "length (inputFrame decoder_init) = EMBENET_BRT_MAX_FRAME_SIZE"
  "inputFrameDataIndex decoder_init = 0"
  by (simp_all add: decoder_init_def)

lemma Receive_empty_queue:
  "content (inputRingBufferDesc s) = [] \<Longrightarrow> EMBENET_BRT_Receive buf n s = Some (s, buf, 0)"
  by (simp add: EMBENET_BRT_Receive_def loop_nil)

lemma with_inbound_simps:
  "content (inputRingBufferDesc (with_inbound q s)) = q"
  "Receive_statics (with_inbound q s) = Receive_statics s"
  by (simp_all add: with_inbound_def)

lemma power_on_statics: "Receive_statics power_on = decoder_init"
  by (simp add: power_on_def)

subsection \<open>Valid frames\<close>

text \<open>
  C2. Round trip: for a payload \<open>P\<close> of 1 to 198 bytes, when the bytes emitted by
  \<open>EMBENET_BRT_Send P (length P)\<close> wait in the inbound queue and the decoder is in its
  initial state, \<open>EMBENET_BRT_Receive\<close> with a buffer capacity of at least \<open>length P\<close>
  returns \<open>length P\<close>, and the buffer then starts with exactly the bytes of \<open>P\<close> (the
  bytes after them are unchanged).
\<close>

theorem send_receive_roundtrip:
  assumes "1 \<le> length P" "length P \<le> EMBENET_BRT_MAX_FRAME_SIZE - 2"
    and "EMBENET_BRT_Send P (length P) = Some wire"
    and "Receive_statics s = decoder_init"
    and "content (inputRingBufferDesc s) = wire"
    and "length P \<le> packetBufferSize" "packetBufferSize \<le> length packetBuffer"
  shows "\<exists>s'. EMBENET_BRT_Receive packetBuffer packetBufferSize s
               = Some (s', P @ drop (length P) packetBuffer, length P)"
proof -
  let ?d1 = "decoder_init\<lparr>inputFrameReceiving := True, inputFrameDataIndex := 0,
                          lastDataByte := HDLC_FLAG\<rparr>"
  let ?rb1 = "(inputRingBufferDesc s)\<lparr>content := stuff (P @ crc_bytes P) @ [HDLC_FLAG]\<rparr>"
  from assms(3,5) have c: "content (inputRingBufferDesc s)
                           = HDLC_FLAG # stuff (P @ crc_bytes P) @ [HDLC_FLAG]"
    by (simp add: Send_eq)
  have pre: "Receive_loop (Receive_statics s) (inputRingBufferDesc s) False
             = Receive_loop ?d1 ?rb1 False"
    unfolding assms(4) by (rule loop_start [OF decoder_init_facts(1) c])
  have len: "length P + 2 \<le> EMBENET_BRT_MAX_FRAME_SIZE"
    using assms(2) by (simp add: EMBENET_BRT_MAX_FRAME_SIZE_def)
  have "\<exists>s'. EMBENET_BRT_Receive packetBuffer packetBufferSize s =
               Some (s', if length P \<le> packetBufferSize then P @ drop (length P) packetBuffer
                         else take packetBufferSize P @ drop packetBufferSize packetBuffer,
                     if length P \<le> packetBufferSize then length P else 0)
              \<and> content (inputRingBufferDesc s') = []"
    by (rule Receive_frame_tail [OF pre _ _ _ _ _ assms(1) len assms(7)])
       (simp_all add: decoder_init_facts)
  with assms(6) show ?thesis
    by auto
qed

lemma Send_example:
  "EMBENET_BRT_Send [0x01, 0x7e, 0x7d, 0x02] 4
     = Some [0x7e, 0x01, 0x7d, 0x5e, 0x7d, 0x5d, 0x02, 0x08, 0x13, 0x7e]"
  by (simp add: EMBENET_BRT_Send_def putFlag_def putByte_def HDLC_FLAG_def HDLC_ESCAPE_def
        HDLC_ESCAPE_MASK_def HDLC_CRCINIT_def openhdlc_crc_def fcstab_def)

theorem send_receive_roundtrip_witness:
  "1 \<le> length [0x01, 0x7e, 0x7d, 0x02 :: uint8_t]
   \<and> length [0x01, 0x7e, 0x7d, 0x02 :: uint8_t] \<le> EMBENET_BRT_MAX_FRAME_SIZE - 2
   \<and> EMBENET_BRT_Send [0x01, 0x7e, 0x7d, 0x02] (length [0x01, 0x7e, 0x7d, 0x02 :: uint8_t])
       = Some [0x7e, 0x01, 0x7d, 0x5e, 0x7d, 0x5d, 0x02, 0x08, 0x13, 0x7e]
   \<and> Receive_statics
         (with_inbound [0x7e, 0x01, 0x7d, 0x5e, 0x7d, 0x5d, 0x02, 0x08, 0x13, 0x7e] power_on)
       = decoder_init
   \<and> content (inputRingBufferDesc
         (with_inbound [0x7e, 0x01, 0x7d, 0x5e, 0x7d, 0x5d, 0x02, 0x08, 0x13, 0x7e] power_on))
       = [0x7e, 0x01, 0x7d, 0x5e, 0x7d, 0x5d, 0x02, 0x08, 0x13, 0x7e]
   \<and> length [0x01, 0x7e, 0x7d, 0x02 :: uint8_t] \<le> 5
   \<and> 5 \<le> length [0xaa, 0xaa, 0xaa, 0xaa, 0xaa, 0xaa :: uint8_t]
   \<and> (\<exists>s'. EMBENET_BRT_Receive [0xaa, 0xaa, 0xaa, 0xaa, 0xaa, 0xaa] 5
               (with_inbound [0x7e, 0x01, 0x7d, 0x5e, 0x7d, 0x5d, 0x02, 0x08, 0x13, 0x7e] power_on)
             = Some (s', [0x01, 0x7e, 0x7d, 0x02, 0xaa, 0xaa], 4))"
proof -
  have l4: "length [0x01, 0x7e, 0x7d, 0x02 :: uint8_t] = 4"
    by simp
  have s: "EMBENET_BRT_Send [0x01, 0x7e, 0x7d, 0x02] (length [0x01, 0x7e, 0x7d, 0x02 :: uint8_t])
           = Some [0x7e, 0x01, 0x7d, 0x5e, 0x7d, 0x5d, 0x02, 0x08, 0x13, 0x7e]"
    unfolding l4 by (rule Send_example)
  have m: "length [0x01, 0x7e, 0x7d, 0x02 :: uint8_t] \<le> EMBENET_BRT_MAX_FRAME_SIZE - 2"
    by (simp add: EMBENET_BRT_MAX_FRAME_SIZE_def)
  have n4: "Suc (Suc (Suc (Suc 0))) = 4"
    by simp
  show ?thesis
    using send_receive_roundtrip [OF _ m s, of
        "with_inbound [0x7e, 0x01, 0x7d, 0x5e, 0x7d, 0x5d, 0x02, 0x08, 0x13, 0x7e] power_on"
        5 "[0xaa, 0xaa, 0xaa, 0xaa, 0xaa, 0xaa]"] s m
    by (simp add: with_inbound_simps power_on_statics n4)
qed

text \<open>
  C8. Back-to-back delimiters: when the inbound stream is a FLAG followed by a valid
  encoded frame (so FLAG FLAG body FLAG), the decoder in its initial state yields exactly
  one frame, the payload \<open>P\<close>: the first call returns it and empties the queue, and every
  further call on the resulting state returns 0 and changes nothing.
\<close>

theorem doubled_leading_flag_single_frame:
  assumes "1 \<le> length P" "length P \<le> EMBENET_BRT_MAX_FRAME_SIZE - 2"
    and "EMBENET_BRT_Send P (length P) = Some wire"
    and "Receive_statics s = decoder_init"
    and "content (inputRingBufferDesc s) = HDLC_FLAG # wire"
    and "length P \<le> packetBufferSize" "packetBufferSize \<le> length packetBuffer"
  shows "\<exists>s'. EMBENET_BRT_Receive packetBuffer packetBufferSize s
               = Some (s', P @ drop (length P) packetBuffer, length P)
              \<and> content (inputRingBufferDesc s') = []
              \<and> EMBENET_BRT_Receive packetBuffer2 packetBufferSize2 s'
                  = Some (s', packetBuffer2, 0)"
proof -
  let ?d0 = "decoder_init\<lparr>inputFrameReceiving := True, inputFrameDataIndex := 0,
                          lastDataByte := HDLC_FLAG\<rparr>"
  let ?d1 = "?d0\<lparr>inputFrameReceiving := True, inputFrameDataIndex := 0,
                          lastDataByte := HDLC_FLAG\<rparr>"
  let ?body = "stuff (P @ crc_bytes P) @ [HDLC_FLAG]"
  let ?rb0 = "(inputRingBufferDesc s)\<lparr>content := HDLC_FLAG # ?body\<rparr>"
  let ?rb1 = "?rb0\<lparr>content := ?body\<rparr>"
  from assms(3,5) have c: "content (inputRingBufferDesc s) = HDLC_FLAG # HDLC_FLAG # ?body"
    by (simp add: Send_eq)
  have "Receive_loop (Receive_statics s) (inputRingBufferDesc s) False
        = Receive_loop ?d0 ?rb0 False"
    unfolding assms(4) by (rule loop_start [OF decoder_init_facts(1) c])
  also have "\<dots> = Receive_loop ?d1 ?rb1 False"
    by (rule loop_double_flag) simp_all
  finally have pre: "Receive_loop (Receive_statics s) (inputRingBufferDesc s) False
                     = Receive_loop ?d1 ?rb1 False" .
  have len: "length P + 2 \<le> EMBENET_BRT_MAX_FRAME_SIZE"
    using assms(2) by (simp add: EMBENET_BRT_MAX_FRAME_SIZE_def)
  have "\<exists>s'. EMBENET_BRT_Receive packetBuffer packetBufferSize s =
               Some (s', if length P \<le> packetBufferSize then P @ drop (length P) packetBuffer
                         else take packetBufferSize P @ drop packetBufferSize packetBuffer,
                     if length P \<le> packetBufferSize then length P else 0)
              \<and> content (inputRingBufferDesc s') = []"
    by (rule Receive_frame_tail [OF pre _ _ _ _ _ assms(1) len assms(7)])
       (simp_all add: decoder_init_facts)
  with assms(6) show ?thesis
    by (auto simp add: Receive_empty_queue)
qed

lemma Send_example_short:
  "EMBENET_BRT_Send [0x41] 1 = Some [0x7e, 0x41, 0xf5, 0xa3, 0x7e]"
  by (simp add: EMBENET_BRT_Send_def putFlag_def putByte_def HDLC_FLAG_def HDLC_ESCAPE_def
        HDLC_ESCAPE_MASK_def HDLC_CRCINIT_def openhdlc_crc_def fcstab_def)

theorem doubled_leading_flag_single_frame_witness:
  "1 \<le> length [0x41 :: uint8_t]
   \<and> length [0x41 :: uint8_t] \<le> EMBENET_BRT_MAX_FRAME_SIZE - 2
   \<and> EMBENET_BRT_Send [0x41] (length [0x41 :: uint8_t]) = Some [0x7e, 0x41, 0xf5, 0xa3, 0x7e]
   \<and> Receive_statics (with_inbound (HDLC_FLAG # [0x7e, 0x41, 0xf5, 0xa3, 0x7e]) power_on)
       = decoder_init
   \<and> content (inputRingBufferDesc
         (with_inbound (HDLC_FLAG # [0x7e, 0x41, 0xf5, 0xa3, 0x7e]) power_on))
       = HDLC_FLAG # [0x7e, 0x41, 0xf5, 0xa3, 0x7e]
   \<and> length [0x41 :: uint8_t] \<le> 2
   \<and> 2 \<le> length [0xaa, 0xaa :: uint8_t]
   \<and> (\<exists>s'. EMBENET_BRT_Receive [0xaa, 0xaa] 2
               (with_inbound (HDLC_FLAG # [0x7e, 0x41, 0xf5, 0xa3, 0x7e]) power_on)
             = Some (s', [0x41, 0xaa], 1)
            \<and> content (inputRingBufferDesc s') = []
            \<and> EMBENET_BRT_Receive [0xbb, 0xbb] 2 s' = Some (s', [0xbb, 0xbb], 0))"
proof -
  have l1: "length [0x41 :: uint8_t] = 1"
    by simp
  have s: "EMBENET_BRT_Send [0x41] (length [0x41 :: uint8_t]) = Some [0x7e, 0x41, 0xf5, 0xa3, 0x7e]"
    unfolding l1 by (rule Send_example_short)
  have m: "length [0x41 :: uint8_t] \<le> EMBENET_BRT_MAX_FRAME_SIZE - 2"
    by (simp add: EMBENET_BRT_MAX_FRAME_SIZE_def)
  show ?thesis
    using doubled_leading_flag_single_frame [OF _ m s, of
        "with_inbound (HDLC_FLAG # [0x7e, 0x41, 0xf5, 0xa3, 0x7e]) power_on"
        2 "[0xaa, 0xaa]" "[0xbb, 0xbb]" 2] s m
    by (simp add: with_inbound_simps power_on_statics)
qed

lemma crc_bytes_example: "crc_bytes [0x01, 0x02] = [0x8d, 0x35]"
  by (simp add: crc_bytes_def frame_crc_def HDLC_CRCINIT_def openhdlc_crc_def fcstab_def)

lemma stuff_example: "stuff [0x01, 0x02, 0x8d, 0x35] = [0x01, 0x02, 0x8d, 0x35]"
  by (simp add: stuff_def putByte_def HDLC_FLAG_def HDLC_ESCAPE_def)

text \<open>
  C1. A valid frame whose payload is longer than \<open>packetBufferSize\<close>: the call returns 0,
  but it copies the first \<open>packetBufferSize\<close> bytes of the payload into the caller's
  buffer. For the payload 01 02 and a two-byte buffer AA BB offered with capacity 1, the
  call returns 0 and leaves 01 BB in the buffer (\<open>Receive_frame_tail\<close> gives the general
  result).
\<close>

theorem undersized_buffer_is_overwritten:
  "EMBENET_BRT_Send [0x01, 0x02] 2 = Some [0x7e, 0x01, 0x02, 0x8d, 0x35, 0x7e]
   \<and> map_option snd
         (EMBENET_BRT_Receive [0xaa, 0xbb] 1
            (with_inbound [0x7e, 0x01, 0x02, 0x8d, 0x35, 0x7e] power_on))
       = Some ([0x01, 0xbb], 0)"
proof -
  let ?s = "with_inbound [0x7e, 0x01, 0x02, 0x8d, 0x35, 0x7e] power_on"
  let ?d1 = "decoder_init\<lparr>inputFrameReceiving := True, inputFrameDataIndex := 0,
                          lastDataByte := HDLC_FLAG\<rparr>"
  let ?rb1 = "(inputRingBufferDesc ?s)\<lparr>content := [0x01, 0x02, 0x8d, 0x35, 0x7e]\<rparr>"
  have c: "content (inputRingBufferDesc ?s) = HDLC_FLAG # [0x01, 0x02, 0x8d, 0x35, 0x7e]"
    by (simp add: with_inbound_simps HDLC_FLAG_def)
  have pre: "Receive_loop (Receive_statics ?s) (inputRingBufferDesc ?s) False
             = Receive_loop ?d1 ?rb1 False"
    unfolding with_inbound_simps power_on_statics
    by (rule loop_start [OF decoder_init_facts(1) c])
  have w: "content ?rb1 = stuff ([0x01, 0x02] @ crc_bytes [0x01, 0x02]) @ [HDLC_FLAG]"
    by (simp add: crc_bytes_example stuff_example HDLC_FLAG_def)
  have "\<exists>s'. EMBENET_BRT_Receive [0xaa, 0xbb] 1 ?s =
               Some (s', if length [0x01, 0x02 :: uint8_t] \<le> 1
                         then [0x01, 0x02] @ drop (length [0x01, 0x02 :: uint8_t]) [0xaa, 0xbb]
                         else take 1 [0x01, 0x02] @ drop 1 [0xaa, 0xbb],
                     if length [0x01, 0x02 :: uint8_t] \<le> 1 then length [0x01, 0x02 :: uint8_t] else 0)
              \<and> content (inputRingBufferDesc s') = []"
    by (rule Receive_frame_tail [OF pre _ _ _ _ w])
       (simp_all add: decoder_init_facts EMBENET_BRT_MAX_FRAME_SIZE_def)
  then have "map_option snd (EMBENET_BRT_Receive [0xaa, 0xbb] 1 ?s) = Some ([0x01, 0xbb], 0)"
    by auto
  moreover have "EMBENET_BRT_Send [0x01, 0x02] 2 = Some [0x7e, 0x01, 0x02, 0x8d, 0x35, 0x7e]"
    by (simp add: EMBENET_BRT_Send_def putFlag_def putByte_def HDLC_FLAG_def HDLC_ESCAPE_def
        HDLC_ESCAPE_MASK_def HDLC_CRCINIT_def openhdlc_crc_def fcstab_def)
  ultimately show ?thesis
    by blast
qed

subsection \<open>Corrupted frames\<close>

lemma fcstab_high_distinct: "distinct (map (drop_bit 8) fcstab)"
  by (simp add: fcstab_def)

lemma xor_cancel_left: "(a :: uint16_t) XOR x = a XOR y \<Longrightarrow> x = y"
proof -
  assume "a XOR x = a XOR y"
  then have "a XOR (a XOR x) = a XOR (a XOR y)"
    by simp
  then show "x = y"
    by (simp add: xor.assoc [symmetric])
qed

lemma xor_cancel_right: "(x :: uint16_t) XOR t = y XOR t \<Longrightarrow> x = y"
proof -
  assume "x XOR t = y XOR t"
  then have "(x XOR t) XOR t = (y XOR t) XOR t"
    by simp
  then show "x = y"
    by (simp add: xor.assoc)
qed

lemma crc_index_less: "unat (((c :: uint16_t) XOR ucast (m :: uint8_t)) AND 0xff) < 256"
proof -
  have "(c XOR ucast m) AND 0xff \<le> 0xff"
    by (rule word_and_le1)
  then have "unat ((c XOR ucast m) AND 0xff) \<le> unat (0xff :: uint16_t)"
    by (simp only: word_le_nat_alt)
  then show ?thesis
    by simp
qed

lemma fcstab_high_inj:
  assumes "i < 256" "j < 256" "drop_bit 8 (fcstab ! i) = drop_bit 8 (fcstab ! j)"
  shows "i = j"
proof -
  have "(map (drop_bit 8) fcstab ! i = map (drop_bit 8) fcstab ! j) = (i = j)"
    using fcstab_high_distinct by (rule nth_eq_iff_index_eq) (simp_all add: length_fcstab assms)
  then show ?thesis
    using assms by (simp add: length_fcstab)
qed

lemma low_byte_xor_cancel:
  assumes "((c :: uint16_t) XOR ucast (m :: uint8_t)) AND 0xff = (c XOR ucast m') AND 0xff"
  shows "m = m'"
proof (rule bit_word_eqI)
  fix n assume n: "n < LENGTH(8)"
  from assms have "bit ((c XOR ucast m) AND mask 8) n = bit ((c XOR ucast m') AND mask 8) n"
    by (simp add: mask8_16)
  with n show "bit m n = bit m' n"
    by (auto simp add: bit_simps)
qed

lemma low_byte_xor_cancel2:
  assumes "((c :: uint16_t) XOR ucast (m :: uint8_t)) AND 0xff = (c' XOR ucast m) AND 0xff"
  shows "c AND 0xff = c' AND 0xff"
proof (rule bit_word_eqI)
  fix n assume n: "n < LENGTH(16)"
  from assms have "bit ((c XOR ucast m) AND mask 8) n = bit ((c' XOR ucast m) AND mask 8) n"
    by (simp add: mask8_16)
  then show "bit (c AND 0xff) n = bit (c' AND 0xff) n"
    unfolding mask8_16 by (auto simp add: bit_simps)
qed

lemma word16_split:
  assumes "(c :: uint16_t) AND 0xff = c' AND 0xff" "drop_bit 8 c = drop_bit 8 c'"
  shows "c = c'"
proof (rule bit_word_eqI)
  fix n assume n: "n < LENGTH(16)"
  show "bit c n = bit c' n"
  proof (cases "n < 8")
    case True
    from assms(1) have "bit (c AND mask 8) n = bit (c' AND mask 8) n"
      by (simp add: mask8_16)
    with True show ?thesis
      by (simp add: bit_simps)
  next
    case False
    from assms(2) have "bit (drop_bit 8 c) (n - 8) = bit (drop_bit 8 c') (n - 8)"
      by simp
    with False show ?thesis
      by (simp add: bit_simps)
  qed
qed

lemma openhdlc_crc_inj_byte:
  assumes "openhdlc_crc c m = openhdlc_crc c m'"
  shows "m = m'"
proof -
  let ?i = "unat ((c XOR ucast m) AND 0xff)" and ?j = "unat ((c XOR ucast m') AND 0xff)"
  from assms have "drop_bit 8 c XOR fcstab ! ?i = drop_bit 8 c XOR fcstab ! ?j"
    by (simp only: openhdlc_crc_16)
  then have "fcstab ! ?i = fcstab ! ?j"
    by (rule xor_cancel_left)
  then have "?i = ?j"
    using fcstab_high_inj [OF crc_index_less crc_index_less] by simp
  then have "(c XOR ucast m) AND 0xff = (c XOR ucast m') AND 0xff"
    by (rule word_unat_eq_iff [THEN iffD2])
  then show ?thesis
    by (rule low_byte_xor_cancel)
qed

lemma drop_bit_8_crc:
  "drop_bit 8 (openhdlc_crc c m) = drop_bit 8 (fcstab ! unat ((c XOR ucast m) AND 0xff))"
  unfolding openhdlc_crc_16
  by (rule bit_word_eqI) (auto simp add: bit_simps dest: bit_imp_le_length)

lemma openhdlc_crc_inj_crc:
  assumes "openhdlc_crc c m = openhdlc_crc c' m"
  shows "c = c'"
proof -
  let ?i = "unat ((c XOR ucast m) AND 0xff)" and ?j = "unat ((c' XOR ucast m) AND 0xff)"
  from assms have "drop_bit 8 (fcstab ! ?i) = drop_bit 8 (fcstab ! ?j)"
    by (simp only: drop_bit_8_crc [symmetric])
  then have ij: "?i = ?j"
    using fcstab_high_inj [OF crc_index_less crc_index_less] by simp
  then have "(c XOR ucast m) AND 0xff = (c' XOR ucast m) AND 0xff"
    by (rule word_unat_eq_iff [THEN iffD2])
  then have lo: "c AND 0xff = c' AND 0xff"
    by (rule low_byte_xor_cancel2)
  from assms have "drop_bit 8 c XOR fcstab ! ?i = drop_bit 8 c' XOR fcstab ! ?j"
    by (simp only: openhdlc_crc_16)
  then have "drop_bit 8 c XOR fcstab ! ?j = drop_bit 8 c' XOR fcstab ! ?j"
    by (simp only: ij)
  then have hi: "drop_bit 8 c = drop_bit 8 c'"
    by (rule xor_cancel_right)
  from lo hi show ?thesis
    by (rule word16_split)
qed

lemma foldl_crc_inj:
  "foldl openhdlc_crc c B = foldl openhdlc_crc c' B \<Longrightarrow> c = c'"
  by (induction B arbitrary: c c') (auto dest: openhdlc_crc_inj_crc)

lemma frame_crc_update:
  assumes "i < length P" "v \<noteq> P ! i"
  shows "frame_crc (P[i := v]) \<noteq> frame_crc P"
proof
  let ?A = "take i P" and ?B = "drop (Suc i) P"
  let ?c = "foldl openhdlc_crc HDLC_CRCINIT ?A"
  assume "frame_crc (P[i := v]) = frame_crc P"
  then have "foldl openhdlc_crc HDLC_CRCINIT (P[i := v]) = foldl openhdlc_crc HDLC_CRCINIT P"
    by (simp add: frame_crc_def)
  moreover have "P[i := v] = ?A @ v # ?B"
    using assms(1) by (rule upd_conv_take_nth_drop)
  moreover have "P = ?A @ P ! i # ?B"
    using assms(1) by (rule id_take_nth_drop)
  ultimately have "foldl openhdlc_crc HDLC_CRCINIT (?A @ v # ?B)
                   = foldl openhdlc_crc HDLC_CRCINIT (?A @ P ! i # ?B)"
    by simp
  then have "foldl openhdlc_crc (openhdlc_crc ?c v) ?B
             = foldl openhdlc_crc (openhdlc_crc ?c (P ! i)) ?B"
    by simp
  then have "openhdlc_crc ?c v = openhdlc_crc ?c (P ! i)"
    by (rule foldl_crc_inj)
  then have "v = P ! i"
    by (rule openhdlc_crc_inj_byte)
  with assms(2) show False
    by simp
qed

lemma high_byte_mask: "drop_bit 8 (x :: uint16_t) AND 0xff = drop_bit 8 x"
  unfolding mask8_16
  by (rule bit_word_eqI) (auto simp add: bit_simps dest: bit_imp_le_length)

lemma crc_bytes_inj:
  assumes "crc_bytes P = crc_bytes Q"
  shows "frame_crc P = frame_crc Q"
proof -
  let ?x = "frame_crc P" and ?y = "frame_crc Q"
  from assms have l: "(ucast (?x AND 0xff) :: uint8_t) = ucast (?y AND 0xff)"
    and h: "(ucast (drop_bit 8 ?x AND 0xff) :: uint8_t) = ucast (drop_bit 8 ?y AND 0xff)"
    by (simp_all add: crc_bytes_def)
  from l have "(ucast (ucast (?x AND 0xff) :: uint8_t) :: uint16_t)
               = ucast (ucast (?y AND 0xff) :: uint8_t)"
    by simp
  then have lo: "?x AND 0xff = ?y AND 0xff"
    by (simp only: ucast_low_byte)
  from h have "(ucast (ucast (drop_bit 8 ?x AND 0xff) :: uint8_t) :: uint16_t)
               = ucast (ucast (drop_bit 8 ?y AND 0xff) :: uint8_t)"
    by simp
  then have "drop_bit 8 ?x AND 0xff = drop_bit 8 ?y AND 0xff"
    by (simp only: ucast_low_byte)
  then have hi: "drop_bit 8 ?x = drop_bit 8 ?y"
    by (simp only: high_byte_mask)
  from lo hi show ?thesis
    by (rule word16_split)
qed

lemma length_crc_bytes: "length (crc_bytes P) = 2"
  by (simp add: crc_bytes_def)

text \<open>
  Changing one byte of a frame (payload followed by its CRC bytes) always breaks the CRC
  comparison.
\<close>

lemma crc_single_change_detected:
  assumes "i < length P + 2" "v \<noteq> (P @ crc_bytes P) ! i"
  shows "drop (length P) ((P @ crc_bytes P)[i := v])
         \<noteq> crc_bytes (take (length P) ((P @ crc_bytes P)[i := v]))"
proof (cases "i < length P")
  case True
  then have u: "(P @ crc_bytes P)[i := v] = P[i := v] @ crc_bytes P"
    by (simp add: list_update_append1)
  from True assms(2) have "v \<noteq> P ! i"
    by (simp add: nth_append)
  with True have "frame_crc (P[i := v]) \<noteq> frame_crc P"
    by (rule frame_crc_update)
  then have "crc_bytes P \<noteq> crc_bytes (P[i := v])"
    using crc_bytes_inj [of P "P[i := v]"] by auto
  then show ?thesis
    by (simp add: u)
next
  case False
  let ?j = "i - length P"
  from False have u: "(P @ crc_bytes P)[i := v] = P @ (crc_bytes P)[?j := v]"
    by (simp add: list_update_append)
  from False assms have j: "?j < length (crc_bytes P)" "v \<noteq> crc_bytes P ! ?j"
    by (simp_all add: length_crc_bytes nth_append)
  have "(crc_bytes P)[?j := v] ! ?j = v"
    using j(1) by simp
  with j(2) have "(crc_bytes P)[?j := v] \<noteq> crc_bytes P"
    by metis
  then show ?thesis
    by (simp add: u)
qed

lemma xor_mask_neq: "(w :: uint8_t) \<noteq> x \<Longrightarrow> w XOR HDLC_ESCAPE_MASK \<noteq> x XOR HDLC_ESCAPE_MASK"
  by (metis esc_flag_facts(6))

text \<open>
  Replacing a wire byte that is not an ESCAPE by a different byte that is neither FLAG
  nor ESCAPE replaces one unit by a unit that stands for a different byte.
\<close>

lemma wire_bytes_update:
  assumes "\<forall>u \<in> set us. unit_ok u" "k < length (wire_bytes us)"
    "wire_bytes us ! k \<noteq> HDLC_ESCAPE"
    "w \<noteq> HDLC_FLAG" "w \<noteq> HDLC_ESCAPE" "w \<noteq> wire_bytes us ! k"
  shows "\<exists>i u. i < length us \<and> unit_ok u \<and> (wire_bytes us)[k := w] = wire_bytes (us[i := u])
               \<and> unit_value u \<noteq> unit_value (us ! i)"
  using assms(1,2,3,6)
proof (induction us arbitrary: k)
  case Nil
  then show ?case
    by (simp add: wire_bytes_Nil)
next
  case (Cons u0 us)
  note ok = assms(4,5)
  show ?case
  proof (cases u0)
    case (Plain b)
    show ?thesis
    proof (cases k)
      case 0
      with Plain Cons.prems ok have
        "0 < length (u0 # us) \<and> unit_ok (Plain w)
         \<and> (wire_bytes (u0 # us))[k := w] = wire_bytes ((u0 # us)[0 := Plain w])
         \<and> unit_value (Plain w) \<noteq> unit_value ((u0 # us) ! 0)"
        by (simp add: wire_bytes_Cons unit_ok_def)
      then show ?thesis
        by blast
    next
      case (Suc k')
      with Plain Cons.prems have
        "\<exists>i u. i < length us \<and> unit_ok u \<and> (wire_bytes us)[k' := w] = wire_bytes (us[i := u])
               \<and> unit_value u \<noteq> unit_value (us ! i)"
        by (intro Cons.IH) (simp_all add: wire_bytes_Cons)
      then obtain i u where iu: "i < length us" "unit_ok u"
          "(wire_bytes us)[k' := w] = wire_bytes (us[i := u])"
          "unit_value u \<noteq> unit_value (us ! i)"
        by blast
      with Plain Suc have
        "Suc i < length (u0 # us) \<and> unit_ok u
         \<and> (wire_bytes (u0 # us))[k := w] = wire_bytes ((u0 # us)[Suc i := u])
         \<and> unit_value u \<noteq> unit_value ((u0 # us) ! Suc i)"
        by (simp add: wire_bytes_Cons)
      then show ?thesis
        by blast
    qed
  next
    case (Escaped x)
    from Escaped Cons.prems(3) have k0: "k \<noteq> 0"
      by (cases k) (simp_all add: wire_bytes_Cons)
    show ?thesis
    proof (cases "k = 1")
      case True
      with Escaped Cons.prems ok have
        "0 < length (u0 # us) \<and> unit_ok (Escaped w)
         \<and> (wire_bytes (u0 # us))[k := w] = wire_bytes ((u0 # us)[0 := Escaped w])
         \<and> unit_value (Escaped w) \<noteq> unit_value ((u0 # us) ! 0)"
        by (simp add: wire_bytes_Cons unit_ok_def xor_mask_neq)
      then show ?thesis
        by blast
    next
      case False
      with k0 obtain k' where k: "k = Suc (Suc k')"
        by (metis One_nat_def not0_implies_Suc)
      with Escaped Cons.prems have
        "\<exists>i u. i < length us \<and> unit_ok u \<and> (wire_bytes us)[k' := w] = wire_bytes (us[i := u])
               \<and> unit_value u \<noteq> unit_value (us ! i)"
        by (intro Cons.IH) (simp_all add: wire_bytes_Cons)
      then obtain i u where iu: "i < length us" "unit_ok u"
          "(wire_bytes us)[k' := w] = wire_bytes (us[i := u])"
          "unit_value u \<noteq> unit_value (us ! i)"
        by blast
      with Escaped k have
        "Suc i < length (u0 # us) \<and> unit_ok u
         \<and> (wire_bytes (u0 # us))[k := w] = wire_bytes ((u0 # us)[Suc i := u])
         \<and> unit_value u \<noteq> unit_value ((u0 # us) ! Suc i)"
        by (simp add: wire_bytes_Cons)
      then show ?thesis
        by blast
    qed
  qed
qed

lemma flip_changes: "j < 8 \<Longrightarrow> (x :: uint8_t) XOR push_bit j 1 \<noteq> x"
proof
  assume j: "j < 8" and e: "x XOR push_bit j 1 = x"
  have "bit (x XOR push_bit j 1) j = (\<not> bit x j)"
    using j by (simp add: bit_simps)
  with e show False
    by simp
qed

lemma list_two: "length xs = 2 \<Longrightarrow> \<exists>a b. xs = [a, b]"
  by (cases xs; cases "tl xs") auto

text \<open>
  C6, as the code has it. For a payload of at most 198 bytes, flip one bit of a wire byte
  between the two delimiters, where that byte is not an ESCAPE and the flipped byte is
  neither FLAG nor ESCAPE. Fed to the decoder in its initial state, the stream makes
  \<open>EMBENET_BRT_Receive\<close> return 0 and leave the caller's buffer as it was.
\<close>

theorem single_bit_flip_rejected:
  assumes len: "length P \<le> EMBENET_BRT_MAX_FRAME_SIZE - 2"
    and send: "EMBENET_BRT_Send P (length P) = Some wire"
    and k: "0 < k" "k < length wire - 1"
    and j: "j < 8"
    and orig: "wire ! k \<noteq> HDLC_ESCAPE"
    and flipped: "wire ! k XOR push_bit j 1 \<noteq> HDLC_FLAG" "wire ! k XOR push_bit j 1 \<noteq> HDLC_ESCAPE"
    and init: "Receive_statics s = decoder_init"
    and queue: "content (inputRingBufferDesc s) = wire[k := wire ! k XOR push_bit j 1]"
    and buf: "packetBufferSize \<le> length packetBuffer"
  shows "\<exists>s'. EMBENET_BRT_Receive packetBuffer packetBufferSize s = Some (s', packetBuffer, 0)"
proof -
  let ?M = "P @ crc_bytes P"
  let ?us = "map unit_of ?M"
  let ?W = "wire_bytes ?us"
  let ?w = "wire ! k XOR push_bit j 1"
  from send have wire: "wire = HDLC_FLAG # ?W @ [HDLC_FLAG]"
    by (simp add: Send_eq stuff_units)
  obtain k' where k': "k = Suc k'"
    using k(1) by (cases k) auto
  from k(2) have kW: "k' < length ?W"
    by (simp add: wire k')
  then have nth: "wire ! k = ?W ! k'"
    by (simp add: wire k' nth_append)
  have upd: "wire[k := ?w] = HDLC_FLAG # ?W[k' := ?w] @ [HDLC_FLAG]"
    using kW by (simp add: wire k' list_update_append1)
  have ok: "\<forall>u \<in> set ?us. unit_ok u"
    by (auto simp add: unit_of_ok)
  have "?w \<noteq> wire ! k"
    using j by (rule flip_changes)
  then have n: "?w \<noteq> ?W ! k'"
    unfolding nth .
  have o: "?W ! k' \<noteq> HDLC_ESCAPE"
    using orig unfolding nth .
  have "\<exists>i u. i < length ?us \<and> unit_ok u \<and> ?W[k' := ?w] = wire_bytes (?us[i := u])
                   \<and> unit_value u \<noteq> unit_value (?us ! i)"
    by (rule wire_bytes_update [OF ok kW o flipped n])
  then obtain i u where iu: "i < length ?us" "unit_ok u" "?W[k' := ?w] = wire_bytes (?us[i := u])"
      "unit_value u \<noteq> unit_value (?us ! i)"
    by blast
  let ?us' = "?us[i := u]" and ?v = "unit_value u"
  let ?M' = "?M[i := ?v]"
  have ok': "\<forall>u \<in> set ?us'. unit_ok u"
    using ok iu(2) by (auto dest: set_update_subset_insert [THEN subsetD])
  have iM: "i < length P + 2"
    using iu(1) by (simp add: length_crc_bytes)
  have vne: "?v \<noteq> ?M ! i"
    using iu(1,4) by (simp add: unit_of_value del: map_append)
  have val: "map unit_value ?us' = ?M'"
    by (simp add: map_update unit_of_value comp_def del: map_append)
  have lus': "length ?us' = length P + 2"
    by (simp add: length_crc_bytes)
  let ?d1 = "decoder_init\<lparr>inputFrameReceiving := True, inputFrameDataIndex := 0,
                          lastDataByte := HDLC_FLAG\<rparr>"
  let ?rb1 = "(inputRingBufferDesc s)\<lparr>content := wire_bytes ?us' @ [HDLC_FLAG]\<rparr>"
  have c: "content (inputRingBufferDesc s) = HDLC_FLAG # wire_bytes ?us' @ [HDLC_FLAG]"
    using queue upd iu(3) by simp
  have pre: "Receive_loop (Receive_statics s) (inputRingBufferDesc s) False
             = Receive_loop ?d1 ?rb1 False"
    unfolding init by (rule loop_start [OF decoder_init_facts(1) c])
  have fresh: "inputFrameReceiving ?d1" "inputFrameDataIndex ?d1 = 0"
    "lastDataByte ?d1 = HDLC_FLAG" "length (inputFrame ?d1) = EMBENET_BRT_MAX_FRAME_SIZE"
    by (simp_all add: decoder_init_facts)
  have w1: "content ?rb1 = wire_bytes ?us' @ [HDLC_FLAG]"
    by simp
  show ?thesis
  proof (cases "length P = 0")
    case True
    with lus' have "length ?us' \<le> 2"
      by simp
    then show ?thesis
      by (rule Receive_units_short [OF pre fresh ok' w1])
  next
    case False
    let ?P' = "take (length P) ?M'"
    have lP': "length ?P' = length P"
      by (simp add: length_crc_bytes)
    have "length (drop (length P) ?M') = 2"
      by (simp add: length_crc_bytes)
    then obtain a b where ab: "drop (length P) ?M' = [a, b]"
      using list_two by blast
    have "?M' = ?P' @ drop (length P) ?M'"
      by simp
    then have split: "?M' = ?P' @ [a, b]"
      by (simp only: ab)
    have val': "map unit_value ?us' = ?P' @ [a, b]"
      using val split by simp
    have bad: "[a, b] \<noteq> crc_bytes ?P'"
      using crc_single_change_detected [OF iM vne] ab by simp
    have l1: "1 \<le> length ?P'"
      using False lP' by (cases P) simp_all
    have l2: "length ?P' + 2 \<le> EMBENET_BRT_MAX_FRAME_SIZE"
      using len lP' by (simp add: EMBENET_BRT_MAX_FRAME_SIZE_def)
    show ?thesis
      using Receive_units_frame [OF pre fresh ok' w1 val' l1 l2 buf] bad
      by auto
  qed
qed

lemma Receive_units_from_power_on:
  assumes ok: "\<forall>u \<in> set us. unit_ok u"
    and q: "q = HDLC_FLAG # wire_bytes us @ HDLC_FLAG # rest"
    and val: "map unit_value us = P @ crc_bytes P"
    and len: "1 \<le> length P" "length P + 2 \<le> EMBENET_BRT_MAX_FRAME_SIZE"
    and buf: "length P \<le> n" "n \<le> length buf"
    and r: "length P = r"
  shows "map_option snd (EMBENET_BRT_Receive buf n (with_inbound q power_on))
         = Some (P @ drop r buf, r)"
proof -
  let ?s = "with_inbound q power_on"
  let ?d1 = "decoder_init\<lparr>inputFrameReceiving := True, inputFrameDataIndex := 0,
                          lastDataByte := HDLC_FLAG\<rparr>"
  let ?rb1 = "(inputRingBufferDesc ?s)\<lparr>content := wire_bytes us @ HDLC_FLAG # rest\<rparr>"
  obtain a b where ab: "crc_bytes P = [a, b]"
    by (simp add: crc_bytes_def)
  have c: "content (inputRingBufferDesc ?s) = HDLC_FLAG # wire_bytes us @ HDLC_FLAG # rest"
    by (simp add: with_inbound_simps q)
  have pre: "Receive_loop (Receive_statics ?s) (inputRingBufferDesc ?s) False
             = Receive_loop ?d1 ?rb1 False"
    unfolding with_inbound_simps power_on_statics
    by (rule loop_start [OF decoder_init_facts(1) c])
  have fresh: "inputFrameReceiving ?d1" "inputFrameDataIndex ?d1 = 0"
    "lastDataByte ?d1 = HDLC_FLAG" "length (inputFrame ?d1) = EMBENET_BRT_MAX_FRAME_SIZE"
    by (simp_all add: decoder_init_facts)
  have w1: "content ?rb1 = wire_bytes us @ HDLC_FLAG # rest"
    by simp
  have val': "map unit_value us = P @ [a, b]"
    using val ab by simp
  show ?thesis
    using Receive_units_frame [OF pre fresh ok w1 val' len buf(2)] ab buf(1) r
    by auto
qed

theorem single_bit_flip_rejected_witness:
  "length [0x41 :: uint8_t] \<le> EMBENET_BRT_MAX_FRAME_SIZE - 2
   \<and> EMBENET_BRT_Send [0x41] (length [0x41 :: uint8_t]) = Some [0x7e, 0x41, 0xf5, 0xa3, 0x7e]
   \<and> (0 :: nat) < 1 \<and> 1 < length [0x7e, 0x41, 0xf5, 0xa3, 0x7e :: uint8_t] - 1
   \<and> (0 :: nat) < 8
   \<and> [0x7e, 0x41, 0xf5, 0xa3, 0x7e] ! 1 \<noteq> HDLC_ESCAPE
   \<and> [0x7e, 0x41, 0xf5, 0xa3, 0x7e] ! 1 XOR push_bit 0 1 \<noteq> HDLC_FLAG
   \<and> [0x7e, 0x41, 0xf5, 0xa3, 0x7e] ! 1 XOR push_bit 0 1 \<noteq> HDLC_ESCAPE
   \<and> Receive_statics (with_inbound [0x7e, 0x40, 0xf5, 0xa3, 0x7e] power_on) = decoder_init
   \<and> content (inputRingBufferDesc (with_inbound [0x7e, 0x40, 0xf5, 0xa3, 0x7e] power_on))
       = [0x7e, 0x41, 0xf5, 0xa3, 0x7e]
           [1 := [0x7e, 0x41, 0xf5, 0xa3, 0x7e] ! 1 XOR push_bit 0 1]
   \<and> 1 \<le> length [0xaa :: uint8_t]
   \<and> (\<exists>s'. EMBENET_BRT_Receive [0xaa] 1 (with_inbound [0x7e, 0x40, 0xf5, 0xa3, 0x7e] power_on)
             = Some (s', [0xaa], 0))"
proof -
  let ?wire = "[0x7e, 0x41, 0xf5, 0xa3, 0x7e] :: uint8_t list"
  let ?s = "with_inbound [0x7e, 0x40, 0xf5, 0xa3, 0x7e] power_on"
  have l1: "length [0x41 :: uint8_t] = 1"
    by simp
  have h1: "length [0x41 :: uint8_t] \<le> EMBENET_BRT_MAX_FRAME_SIZE - 2"
    by (simp add: EMBENET_BRT_MAX_FRAME_SIZE_def)
  have h2: "EMBENET_BRT_Send [0x41] (length [0x41 :: uint8_t]) = Some ?wire"
    unfolding l1 by (rule Send_example_short)
  have h3: "(0 :: nat) < 1" "1 < length ?wire - 1" "(0 :: nat) < 8"
    by simp_all
  have h4: "?wire ! 1 \<noteq> HDLC_ESCAPE" "?wire ! 1 XOR push_bit 0 1 \<noteq> HDLC_FLAG"
    "?wire ! 1 XOR push_bit 0 1 \<noteq> HDLC_ESCAPE"
    by (simp_all add: HDLC_ESCAPE_def HDLC_FLAG_def)
  have h5: "Receive_statics ?s = decoder_init"
    by (simp add: with_inbound_simps power_on_statics)
  have h6: "content (inputRingBufferDesc ?s) = ?wire[1 := ?wire ! 1 XOR push_bit 0 1]"
    by (simp add: with_inbound_simps)
  have h7: "1 \<le> length [0xaa :: uint8_t]"
    by simp
  from single_bit_flip_rejected [OF h1 h2 h3 h4 h5 h6 h7] h1 h2 h3 h4 h5 h6 h7
  show ?thesis
    by blast
qed

lemma crc_bytes_examples:
  "crc_bytes [0x41] = [0xf5, 0xa3]"
  "crc_bytes [0x38, 0xba, 0xfd, 0x5e] = [0x47, 0xdb]"
  "crc_bytes [0x6f, 0x7d, 0x7d] = [0x98, 0x61]"
  by (simp_all add: crc_bytes_def frame_crc_def HDLC_CRCINIT_def openhdlc_crc_def fcstab_def)

lemma Send_examples:
  "EMBENET_BRT_Send [0x41, 0xf5, 0xa3, 0x7f] 4
     = Some [0x7e, 0x41, 0xf5, 0xa3, 0x7f, 0xbc, 0x4d, 0x7e]"
  "EMBENET_BRT_Send [0x38, 0xba, 0x7e] 3
     = Some [0x7e, 0x38, 0xba, 0x7d, 0x5e, 0x47, 0xdb, 0x7e]"
  "EMBENET_BRT_Send [0x6f, 0x7d, 0x7d, 0x5d] 4
     = Some [0x7e, 0x6f, 0x7d, 0x5d, 0x7d, 0x5d, 0x5d, 0xb8, 0x61, 0x7e]"
  by (simp_all add: EMBENET_BRT_Send_def putFlag_def putByte_def HDLC_FLAG_def HDLC_ESCAPE_def
        HDLC_ESCAPE_MASK_def HDLC_CRCINIT_def openhdlc_crc_def fcstab_def)

lemma flipped_into_flag:
  "map_option snd (EMBENET_BRT_Receive [0xaa, 0xaa, 0xaa, 0xaa] 4
      (with_inbound [0x7e, 0x41, 0xf5, 0xa3, 0x7e, 0xbc, 0x4d, 0x7e] power_on))
   = Some ([0x41, 0xaa, 0xaa, 0xaa], 1)"
  using Receive_units_from_power_on
    [of "[Plain 0x41, Plain 0xf5, Plain 0xa3]"
        "[0x7e, 0x41, 0xf5, 0xa3, 0x7e, 0xbc, 0x4d, 0x7e]" "[0xbc, 0x4d, 0x7e]" "[0x41]" 4
        "[0xaa, 0xaa, 0xaa, 0xaa]" 1]
  by (simp add: crc_bytes_examples unit_ok_def wire_bytes_def HDLC_FLAG_def HDLC_ESCAPE_def
      EMBENET_BRT_MAX_FRAME_SIZE_def)

lemma flipped_escape_away:
  "map_option snd (EMBENET_BRT_Receive [0xaa, 0xaa, 0xaa, 0xaa] 4
      (with_inbound [0x7e, 0x38, 0xba, 0xfd, 0x5e, 0x47, 0xdb, 0x7e] power_on))
   = Some ([0x38, 0xba, 0xfd, 0x5e], 4)"
  using Receive_units_from_power_on
    [of "[Plain 0x38, Plain 0xba, Plain 0xfd, Plain 0x5e, Plain 0x47, Plain 0xdb]"
        "[0x7e, 0x38, 0xba, 0xfd, 0x5e, 0x47, 0xdb, 0x7e]" "[]" "[0x38, 0xba, 0xfd, 0x5e]" 4
        "[0xaa, 0xaa, 0xaa, 0xaa]" 4]
  by (simp add: crc_bytes_examples unit_ok_def wire_bytes_def HDLC_FLAG_def HDLC_ESCAPE_def
      EMBENET_BRT_MAX_FRAME_SIZE_def)

lemma flipped_into_escape:
  "map_option snd (EMBENET_BRT_Receive [0xaa, 0xaa, 0xaa, 0xaa] 4
      (with_inbound [0x7e, 0x6f, 0x7d, 0x5d, 0x7d, 0x5d, 0x7d, 0xb8, 0x61, 0x7e] power_on))
   = Some ([0x6f, 0x7d, 0x7d, 0xaa], 3)"
  using Receive_units_from_power_on
    [of "[Plain 0x6f, Escaped 0x5d, Escaped 0x5d, Escaped 0xb8, Plain 0x61]"
        "[0x7e, 0x6f, 0x7d, 0x5d, 0x7d, 0x5d, 0x7d, 0xb8, 0x61, 0x7e]" "[]" "[0x6f, 0x7d, 0x7d]" 4
        "[0xaa, 0xaa, 0xaa, 0xaa]" 3]
  by (simp add: crc_bytes_examples unit_ok_def wire_bytes_def HDLC_FLAG_def HDLC_ESCAPE_def
      HDLC_ESCAPE_MASK_def EMBENET_BRT_MAX_FRAME_SIZE_def)

text \<open>
  C6, as stated, fails for flips that create or destroy a FLAG or an ESCAPE. Payload
  41 F5 A3 7F: flipping bit 0 of the wire byte 7F gives a FLAG, and the decoder returns the
  one-byte frame 41. Payload 38 BA 7E: flipping bit 7 of the ESCAPE on the wire gives FD, and
  the decoder returns the four bytes 38 BA FD 5E. Payload 6F 7D 7D 5D: flipping bit 5 of the
  wire byte 5D gives an ESCAPE, and the decoder returns the three bytes 6F 7D 7D.
\<close>

theorem single_bit_flip_counterexample:
  "EMBENET_BRT_Send [0x41, 0xf5, 0xa3, 0x7f] 4
     = Some [0x7e, 0x41, 0xf5, 0xa3, 0x7f, 0xbc, 0x4d, 0x7e]
   \<and> [0x7e, 0x41, 0xf5, 0xa3, 0x7f, 0xbc, 0x4d, 0x7e][4 := 0x7f XOR push_bit 0 1]
       = [0x7e, 0x41, 0xf5, 0xa3, 0x7e, 0xbc, 0x4d, 0x7e :: uint8_t]
   \<and> map_option snd (EMBENET_BRT_Receive [0xaa, 0xaa, 0xaa, 0xaa] 4
         (with_inbound [0x7e, 0x41, 0xf5, 0xa3, 0x7e, 0xbc, 0x4d, 0x7e] power_on))
       = Some ([0x41, 0xaa, 0xaa, 0xaa], 1)
   \<and> EMBENET_BRT_Send [0x38, 0xba, 0x7e] 3
       = Some [0x7e, 0x38, 0xba, 0x7d, 0x5e, 0x47, 0xdb, 0x7e]
   \<and> [0x7e, 0x38, 0xba, 0x7d, 0x5e, 0x47, 0xdb, 0x7e][3 := 0x7d XOR push_bit 7 1]
       = [0x7e, 0x38, 0xba, 0xfd, 0x5e, 0x47, 0xdb, 0x7e :: uint8_t]
   \<and> map_option snd (EMBENET_BRT_Receive [0xaa, 0xaa, 0xaa, 0xaa] 4
         (with_inbound [0x7e, 0x38, 0xba, 0xfd, 0x5e, 0x47, 0xdb, 0x7e] power_on))
       = Some ([0x38, 0xba, 0xfd, 0x5e], 4)
   \<and> EMBENET_BRT_Send [0x6f, 0x7d, 0x7d, 0x5d] 4
       = Some [0x7e, 0x6f, 0x7d, 0x5d, 0x7d, 0x5d, 0x5d, 0xb8, 0x61, 0x7e]
   \<and> [0x7e, 0x6f, 0x7d, 0x5d, 0x7d, 0x5d, 0x5d, 0xb8, 0x61, 0x7e][6 := 0x5d XOR push_bit 5 1]
       = [0x7e, 0x6f, 0x7d, 0x5d, 0x7d, 0x5d, 0x7d, 0xb8, 0x61, 0x7e :: uint8_t]
   \<and> map_option snd (EMBENET_BRT_Receive [0xaa, 0xaa, 0xaa, 0xaa] 4
         (with_inbound [0x7e, 0x6f, 0x7d, 0x5d, 0x7d, 0x5d, 0x7d, 0xb8, 0x61, 0x7e] power_on))
       = Some ([0x6f, 0x7d, 0x7d, 0xaa], 3)"
proof -
  have "[0x7e, 0x41, 0xf5, 0xa3, 0x7f, 0xbc, 0x4d, 0x7e][4 := 0x7f XOR push_bit 0 1]
        = [0x7e, 0x41, 0xf5, 0xa3, 0x7e, 0xbc, 0x4d, 0x7e :: uint8_t]"
    "[0x7e, 0x38, 0xba, 0x7d, 0x5e, 0x47, 0xdb, 0x7e][3 := 0x7d XOR push_bit 7 1]
        = [0x7e, 0x38, 0xba, 0xfd, 0x5e, 0x47, 0xdb, 0x7e :: uint8_t]"
    "[0x7e, 0x6f, 0x7d, 0x5d, 0x7d, 0x5d, 0x5d, 0xb8, 0x61, 0x7e][6 := 0x5d XOR push_bit 5 1]
        = [0x7e, 0x6f, 0x7d, 0x5d, 0x7d, 0x5d, 0x7d, 0xb8, 0x61, 0x7e :: uint8_t]"
    by (simp_all add: numeral_eq_Suc)
  then show ?thesis
    using Send_examples flipped_into_flag flipped_escape_away flipped_into_escape
    by blast
qed

section \<open>Raw receive\<close>

lemma ReceiveRaw_loop_Nil:
  "content rb = [] \<Longrightarrow> ReceiveRaw_loop rb data n off = Some (rb, data, off)"
  by (simp add: RingBuffer_GetChar_def)

lemma ReceiveRaw_loop_Cons:
  "content rb = c # q \<Longrightarrow> off < length data \<Longrightarrow>
   ReceiveRaw_loop rb data n off =
     (if n \<le> off + 1 then Some (rb\<lparr>content := q\<rparr>, data[off := c], off + 1)
      else ReceiveRaw_loop (rb\<lparr>content := q\<rparr>) (data[off := c]) n (off + 1))"
  by (subst ReceiveRaw_loop.simps) (simp add: RingBuffer_GetChar_def)

declare ReceiveRaw_loop.simps [simp del]

lemma ReceiveRaw_loop_drains:
  assumes "off < n" "n \<le> length data" "content rb = q"
  shows "ReceiveRaw_loop rb data n off =
         Some (rb\<lparr>content := drop (n - off) q\<rparr>,
               take off data @ take (n - off) q @ drop (off + min (n - off) (length q)) data,
               off + min (n - off) (length q))"
  using assms
proof (induction q arbitrary: rb data off)
  case Nil
  then have "rb\<lparr>content := []\<rparr> = rb"
    by simp
  with Nil show ?case
    by (simp add: ReceiveRaw_loop_Nil)
next
  case (Cons c q)
  from Cons.prems have lt: "off < length data"
    by simp
  have upd: "data[off := c] = take off data @ c # drop (Suc off) data"
    using lt by (rule upd_conv_take_nth_drop)
  show ?case
  proof (cases "n \<le> off + 1")
    case True
    with Cons.prems have "n - off = 1"
      by simp
    with True Cons.prems lt show ?thesis
      by (simp add: ReceiveRaw_loop_Cons [OF Cons.prems(3) lt] upd)
  next
    case False
    then have 1: "off + 1 < n"
      by simp
    have 2: "n \<le> length (data[off := c])"
      using Cons.prems by simp
    have 3: "content (rb\<lparr>content := q\<rparr>) = q"
      by simp
    have t: "take (off + 1) (data[off := c]) = take off data @ [c]"
      using lt by (simp add: upd)
    have m: "off + 1 + min (n - (off + 1)) (length q) = off + min (n - off) (length (c # q))"
      using 1 by (auto simp add: min_def)
    have "drop (off + min (n - off) (length (c # q))) (data[off := c])
          = drop (off + min (n - off) (length (c # q))) data"
      using 1 by (intro drop_update_cancel) simp
    then have d: "drop (off + 1 + min (n - (off + 1)) (length q)) (data[off := c])
             = drop (off + min (n - off) (length (c # q))) data"
      by (simp only: m)
    have s: "n - off = Suc (n - (off + 1))"
      using 1 by simp
    have tq: "[c] @ take (n - (off + 1)) q = take (n - off) (c # q)"
      unfolding s by simp
    have dq: "drop (n - (off + 1)) q = drop (n - off) (c # q)"
      unfolding s by simp
    have buf_eq: "take (off + 1) (data[off := c]) @ take (n - (off + 1)) q
                  @ drop (off + 1 + min (n - (off + 1)) (length q)) (data[off := c])
                  = take off data @ take (n - off) (c # q)
                    @ drop (off + min (n - off) (length (c # q))) data"
    proof -
      have "take (off + 1) (data[off := c]) @ take (n - (off + 1)) q
            @ drop (off + 1 + min (n - (off + 1)) (length q)) (data[off := c])
            = (take off data @ [c]) @ take (n - (off + 1)) q
              @ drop (off + min (n - off) (length (c # q))) data"
        by (simp only: t d)
      also have "\<dots> = take off data @ ([c] @ take (n - (off + 1)) q)
                        @ drop (off + min (n - off) (length (c # q))) data"
        by simp
      also have "\<dots> = take off data @ take (n - off) (c # q)
                        @ drop (off + min (n - off) (length (c # q))) data"
        by (simp only: tq)
      finally show ?thesis .
    qed
    have "(rb\<lparr>content := q\<rparr>)\<lparr>content := drop (n - (off + 1)) q\<rparr>
          = (rb\<lparr>content := q\<rparr>)\<lparr>content := drop (n - off) (c # q)\<rparr>"
      by (simp only: dq)
    then have rb_eq: "(rb\<lparr>content := q\<rparr>)\<lparr>content := drop (n - (off + 1)) q\<rparr>
          = rb\<lparr>content := drop (n - off) (c # q)\<rparr>"
      by simp
    have "ReceiveRaw_loop rb data n off
          = ReceiveRaw_loop (rb\<lparr>content := q\<rparr>) (data[off := c]) n (off + 1)"
      using False by (simp add: ReceiveRaw_loop_Cons [OF Cons.prems(3) lt])
    also have "\<dots> = Some ((rb\<lparr>content := q\<rparr>)\<lparr>content := drop (n - (off + 1)) q\<rparr>,
               take (off + 1) (data[off := c]) @ take (n - (off + 1)) q
               @ drop (off + 1 + min (n - (off + 1)) (length q)) (data[off := c]),
               off + 1 + min (n - (off + 1)) (length q))"
      by (rule Cons.IH [OF 1 2 3])
    also have "\<dots> = Some (rb\<lparr>content := drop (n - off) (c # q)\<rparr>,
               take off data @ take (n - off) (c # q)
               @ drop (off + min (n - off) (length (c # q))) data,
               off + min (n - off) (length (c # q)))"
      by (simp only: rb_eq buf_eq, simp only: m)
    finally show ?thesis .
  qed
qed

text \<open>
  For a capacity of at least 1 (within the object \<open>data\<close>) \<open>EMBENET_BRT_ReceiveRaw\<close>
  removes the oldest \<open>min (length q) n\<close> bytes from the inbound queue \<open>q\<close>, stores them
  in order at the start of \<open>data\<close>, leaves the rest of \<open>data\<close> as it was and returns
  their number.
\<close>

lemma ReceiveRaw_positive_capacity:
  assumes "1 \<le> n" "n \<le> length data" "content (inputRingBufferDesc s) = q"
  shows "EMBENET_BRT_ReceiveRaw data n s =
         Some (with_inbound (drop n q) s,
               take n q @ drop (min n (length q)) data,
               min n (length q))"
  using assms ReceiveRaw_loop_drains [of 0 n data "inputRingBufferDesc s" q]
  by (simp add: EMBENET_BRT_ReceiveRaw_def with_inbound_def)

text \<open>
  C3. With capacity 0 and a non-empty inbound queue, \<open>EMBENET_BRT_ReceiveRaw\<close> removes
  one byte from the queue, writes it to \<open>data[0]\<close> and returns 1; when the object
  \<open>data\<close> has no byte at all, that write is outside it. (For every capacity of at least
  1 the count is \<open>min n (length q)\<close>, see \<open>ReceiveRaw_positive_capacity\<close>.)
\<close>

theorem ReceiveRaw_zero_capacity_takes_a_byte:
  "EMBENET_BRT_ReceiveRaw [0x00] 0 (with_inbound [0xaa, 0xbb] power_on)
     = Some (with_inbound [0xbb] power_on, [0xaa], 1)
   \<and> EMBENET_BRT_ReceiveRaw [] 0 (with_inbound [0xaa, 0xbb] power_on) = None"
  by (simp add: EMBENET_BRT_ReceiveRaw_def with_inbound_def power_on_def RingBuffer_GetChar_def
      ReceiveRaw_loop.simps)

section \<open>The transmit pump\<close>

lemma uartWrite_bytes_reachable:
  "s \<in> tx_reachable \<Longrightarrow> uartWrite_bytes bs s \<in> tx_reachable"
  unfolding uartWrite_bytes_def
  by (induction bs arbitrary: s) (simp_all add: tx_reachable.after_uartWrite)

text \<open>
  C10. In every state reachable from \<open>EMBENET_BRT_Init\<close> by \<open>uartWrite\<close> and
  \<open>tx_isr\<close> steps, an idle transmitter (\<open>isTransmitting\<close> false) has an empty outbound
  queue.
\<close>

theorem idle_transmitter_has_empty_queue:
  "s \<in> tx_reachable \<Longrightarrow> isTransmitting s = False \<longrightarrow> content (outputRingBufferDesc s) = []"
proof (induction rule: tx_reachable.induct)
  case (after_init s)
  show ?case by (simp add: EMBENET_BRT_Init_def RingBuffer_Init_def)
next
  case (after_uartWrite s data)
  show ?case by (simp add: uartWrite_def)
next
  case (after_tx_isr s)
  then show ?case
    by (cases "content (outputRingBufferDesc s)") (simp_all add: tx_isr_def RingBuffer_GetChar_def)
qed

theorem idle_transmitter_has_empty_queue_witness:
  "tx_isr (uartWrite 0x41 (EMBENET_BRT_Init power_on)) \<in> tx_reachable
   \<and> isTransmitting (tx_isr (uartWrite 0x41 (EMBENET_BRT_Init power_on))) = False
   \<and> content (outputRingBufferDesc (tx_isr (uartWrite 0x41 (EMBENET_BRT_Init power_on)))) = []"
proof -
  have r: "tx_isr (uartWrite 0x41 (EMBENET_BRT_Init power_on)) \<in> tx_reachable"
    by (intro tx_reachable.intros)
  have i: "isTransmitting (tx_isr (uartWrite 0x41 (EMBENET_BRT_Init power_on))) = False"
    by (simp add: tx_isr_def uartWrite_def EMBENET_BRT_Init_def RingBuffer_Init_def
        RingBuffer_GetChar_def power_on_def)
  from idle_transmitter_has_empty_queue [OF r] i r show ?thesis
    by blast
qed

section \<open>Bounds of the frame accumulator\<close>

lemma Receive_byte_inv:
  assumes "decoder_inv d"
  shows "\<exists>d' fc. Receive_byte d b = Some (d', fc) \<and> decoder_inv d'
                 \<and> (fc \<longrightarrow> 2 < inputFrameDataIndex d')"
  using assms
  by (auto simp add: Receive_byte_def store_inputFrame_def decoder_inv_def)

lemma Receive_loop_inv:
  assumes "decoder_inv d"
  shows "\<exists>d' rb' fc. Receive_loop d rb False = Some (d', rb', fc) \<and> decoder_inv d'
                    \<and> (fc \<longrightarrow> 2 < inputFrameDataIndex d')"
  using assms
proof (induction q \<equiv> "content rb" arbitrary: d rb)
  case Nil
  then have "content rb = []"
    by simp
  with Nil.prems show ?case
    by (auto simp add: loop_nil)
next
  case (Cons b q)
  from Cons.hyps(2) have c: "content rb = b # q"
    by simp
  obtain d1 fc1 where s: "Receive_byte d b = Some (d1, fc1)" "decoder_inv d1"
      "fc1 \<longrightarrow> 2 < inputFrameDataIndex d1"
    using Receive_byte_inv [OF Cons.prems] by blast
  show ?case
  proof (cases fc1)
    case True
    with s show ?thesis
      by (auto simp add: loop_cons [OF c] loop_done)
  next
    case False
    have "\<exists>d' rb' fc. Receive_loop d1 (rb\<lparr>content := q\<rparr>) False = Some (d', rb', fc)
                      \<and> decoder_inv d' \<and> (fc \<longrightarrow> 2 < inputFrameDataIndex d')"
      by (rule Cons.hyps(1)) (simp_all add: s(2))
    with False s show ?thesis
      by (auto simp add: loop_cons [OF c])
  qed
qed

lemma Receive_inv:
  assumes "decoder_inv (Receive_statics s)" "n \<le> length buf"
  shows "\<exists>s' buf' r. EMBENET_BRT_Receive buf n s = Some (s', buf', r)
                    \<and> decoder_inv (Receive_statics s')"
proof -
  obtain d rb fc where l: "Receive_loop (Receive_statics s) (inputRingBufferDesc s) False
                           = Some (d, rb, fc)" "decoder_inv d" "fc \<longrightarrow> 2 < inputFrameDataIndex d"
    using Receive_loop_inv [OF assms(1)] by blast
  have r: "decoder_inv (d\<lparr>inputFrameReceiving := True, inputFrameDataIndex := 0\<rparr>)"
    using l(2) by (simp add: decoder_inv_def)
  show ?thesis
    using l r assms(2)
    by (auto simp add: EMBENET_BRT_Receive_def Let_def memcpy_def decoder_inv_def)
qed

lemma decoder_init_inv: "decoder_inv decoder_init"
  by (simp add: decoder_inv_def decoder_init_def)

lemma Receive_byte_abort:
  assumes "inputFrameReceiving d" "EMBENET_BRT_MAX_FRAME_SIZE \<le> inputFrameDataIndex d"
    "b \<noteq> HDLC_FLAG"
  shows "Receive_byte d b
         = Some (d\<lparr>inputFrameReceiving := False, inputFrameDataIndex := 0, lastDataByte := b\<rparr>,
                 False)"
proof -
  from assms(3) have "HDLC_FLAG \<noteq> b" by auto
  with assms(1,2) show ?thesis
    by (simp add: Receive_byte_def)
qed

lemma Receive_byte_searching:
  assumes "\<not> inputFrameReceiving d"
  shows "Receive_byte d b
         = Some (if b = HDLC_FLAG
                 then d\<lparr>inputFrameReceiving := True, inputFrameDataIndex := 0, lastDataByte := b\<rparr>
                 else d\<lparr>lastDataByte := b\<rparr>, False)"
  using assms by (auto simp add: Receive_byte_def)

text \<open>
  C7. The decoder never stores outside \<open>inputFrame\<close>: the initial statics satisfy
  \<open>decoder_inv\<close>, and from statics that satisfy it \<open>EMBENET_BRT_Receive\<close> never fails,
  whatever the inbound queue holds, and re-establishes it (a store at an index of 200 or
  more would make \<open>store_inputFrame\<close> fail). When a byte other than FLAG arrives while the
  decoder is receiving with the index at the maximum, the frame is aborted: nothing is
  stored, the index is reset and the decoder leaves the receiving state, after which it
  discards bytes until the next FLAG starts a frame at index 0.
\<close>

theorem decoder_never_writes_out_of_bounds:
  "decoder_inv decoder_init
   \<and> (decoder_inv (Receive_statics s) \<and> packetBufferSize \<le> length packetBuffer \<longrightarrow>
        (\<exists>s' buf' r. EMBENET_BRT_Receive packetBuffer packetBufferSize s = Some (s', buf', r)
                     \<and> decoder_inv (Receive_statics s')))
   \<and> (inputFrameReceiving d \<and> EMBENET_BRT_MAX_FRAME_SIZE \<le> inputFrameDataIndex d
        \<and> b \<noteq> HDLC_FLAG \<longrightarrow>
        Receive_byte d b
          = Some (d\<lparr>inputFrameReceiving := False, inputFrameDataIndex := 0, lastDataByte := b\<rparr>,
                  False)
        \<and> inputFrame (d\<lparr>inputFrameReceiving := False, inputFrameDataIndex := 0,
                          lastDataByte := b\<rparr>) = inputFrame d
        \<and> (\<forall>b'. Receive_byte
                    (d\<lparr>inputFrameReceiving := False, inputFrameDataIndex := 0, lastDataByte := b\<rparr>)
                    b'
                  = Some (if b' = HDLC_FLAG
                          then d\<lparr>inputFrameReceiving := True, inputFrameDataIndex := 0,
                                 lastDataByte := b'\<rparr>
                          else d\<lparr>inputFrameReceiving := False, inputFrameDataIndex := 0,
                                 lastDataByte := b'\<rparr>, False)))"
  using decoder_init_inv Receive_inv [of s packetBufferSize packetBuffer]
    Receive_byte_abort [of d b]
    Receive_byte_searching
      [of "d\<lparr>inputFrameReceiving := False, inputFrameDataIndex := 0, lastDataByte := b\<rparr>"]
  by simp

theorem decoder_never_writes_out_of_bounds_witness:
  "decoder_inv (Receive_statics (with_inbound [0x7e, 0x41] power_on))
   \<and> 0 \<le> length ([] :: uint8_t list)
   \<and> (\<exists>s' buf' r. EMBENET_BRT_Receive [] 0 (with_inbound [0x7e, 0x41] power_on)
                      = Some (s', buf', r)
                   \<and> decoder_inv (Receive_statics s'))
   \<and> inputFrameReceiving full_decoder
   \<and> EMBENET_BRT_MAX_FRAME_SIZE \<le> inputFrameDataIndex full_decoder
   \<and> 0x41 \<noteq> HDLC_FLAG
   \<and> Receive_byte full_decoder 0x41
       = Some (full_decoder\<lparr>inputFrameReceiving := False, inputFrameDataIndex := 0,
                             lastDataByte := 0x41\<rparr>, False)"
  using decoder_never_writes_out_of_bounds
    [of "with_inbound [0x7e, 0x41] power_on" 0 "[]" full_decoder "0x41"]
  by (simp add: with_inbound_simps power_on_statics full_decoder_def HDLC_FLAG_def decoder_init_def)

section \<open>Nesting of the critical section\<close>

lemma cs_run_append:
  "cs_run (xs @ ys) c = (case cs_run xs c of None \<Rightarrow> None | Some c' \<Rightarrow> cs_run ys c')"
  by (induction xs arbitrary: c) (simp_all split: option.splits)

lemma Enter_nested:
  assumes "0 \<le> irqNestCounter c" "irqNestCounter c + int n < INT_MAX"
  shows "cs_run (replicate (Suc n) Enter) c =
         Some (c\<lparr>irqNestCounter := irqNestCounter c + int (Suc n),
                  previousIrqState := (if irqNestCounter c = 0 then PRIMASK c
                                       else previousIrqState c),
                  PRIMASK := 1\<rparr>)"
  using assms
proof (induction n arbitrary: c)
  case 0
  then show ?case
    by (simp add: EMBENET_CRITICAL_SECTION_Enter_def get_PRIMASK_def disable_irq_def Let_def)
next
  case (Suc n)
  let ?c1 = "c\<lparr>irqNestCounter := irqNestCounter c + 1,
                previousIrqState := (if irqNestCounter c = 0 then PRIMASK c
                                     else previousIrqState c),
                PRIMASK := 1\<rparr>"
  from Suc.prems have e: "EMBENET_CRITICAL_SECTION_Enter c = Some ?c1"
    by (simp add: EMBENET_CRITICAL_SECTION_Enter_def get_PRIMASK_def disable_irq_def Let_def)
  have "cs_run (replicate (Suc n) Enter) ?c1 =
        Some (?c1\<lparr>irqNestCounter := irqNestCounter ?c1 + int (Suc n),
                  previousIrqState := (if irqNestCounter ?c1 = 0 then PRIMASK ?c1
                                       else previousIrqState ?c1),
                  PRIMASK := 1\<rparr>)"
    using Suc.prems by (intro Suc.IH) simp_all
  with e Suc.prems show ?case
    by simp
qed

lemma Exit_inner:
  assumes "int k < irqNestCounter c" "irqNestCounter c \<le> INT_MAX"
  shows "cs_run (replicate k Exit) c = Some (c\<lparr>irqNestCounter := irqNestCounter c - int k\<rparr>)"
  using assms
proof (induction k arbitrary: c)
  case 0
  then show ?case by simp
next
  case (Suc k)
  from Suc.prems have "EMBENET_CRITICAL_SECTION_Exit c
                       = Some (c\<lparr>irqNestCounter := irqNestCounter c - 1\<rparr>)"
    by (simp add: EMBENET_CRITICAL_SECTION_Exit_def INT_MIN_def Let_def)
  moreover have "cs_run (replicate k Exit) (c\<lparr>irqNestCounter := irqNestCounter c - 1\<rparr>)
                 = Some (c\<lparr>irqNestCounter := irqNestCounter c - 1\<rparr>
                          \<lparr>irqNestCounter := irqNestCounter (c\<lparr>irqNestCounter := irqNestCounter c - 1\<rparr>) - int k\<rparr>)"
    using Suc.prems by (intro Suc.IH) simp_all
  ultimately show ?case
    by simp
qed

lemma Exit_outermost:
  assumes "irqNestCounter c = 1"
  shows "EMBENET_CRITICAL_SECTION_Exit c
         = Some (c\<lparr>irqNestCounter := 0,
                   PRIMASK := (if previousIrqState c = 0 then 0 else PRIMASK c)\<rparr>)"
  using assms
  by (simp add: EMBENET_CRITICAL_SECTION_Exit_def INT_MIN_def Let_def enable_irq_def)

lemma Exit_unbalanced:
  assumes "irqNestCounter c = 0"
  shows "\<exists>c'. EMBENET_CRITICAL_SECTION_Exit c = Some c' \<and> irqNestCounter c' = 0"
  using assms
  by (simp add: EMBENET_CRITICAL_SECTION_Exit_def INT_MIN_def Let_def enable_irq_def)

lemma nested_then_exits:
  assumes "irqNestCounter c = 0" "1 \<le> n" "int n \<le> INT_MAX" "k < n"
  shows "cs_run (replicate n Enter @ replicate k Exit) c
         = Some (c\<lparr>irqNestCounter := int n - int k, previousIrqState := PRIMASK c, PRIMASK := 1\<rparr>)"
proof -
  obtain m where n: "n = Suc m"
    using assms(2) by (cases n) auto
  have e: "cs_run (replicate n Enter) c
           = Some (c\<lparr>irqNestCounter := int n, previousIrqState := PRIMASK c, PRIMASK := 1\<rparr>)"
    using Enter_nested [of c m] assms(1,3) unfolding n by simp
  have x: "cs_run (replicate k Exit)
             (c\<lparr>irqNestCounter := int n, previousIrqState := PRIMASK c, PRIMASK := 1\<rparr>)
           = Some (c\<lparr>irqNestCounter := int n, previousIrqState := PRIMASK c, PRIMASK := 1\<rparr>
                   \<lparr>irqNestCounter := int n - int k\<rparr>)"
    using Exit_inner [of k "c\<lparr>irqNestCounter := int n, previousIrqState := PRIMASK c, PRIMASK := 1\<rparr>"]
      assms(3,4) by simp
  show ?thesis
    by (simp add: cs_run_append e x)
qed

text \<open>
  C9. Starting with the counter at 0, after \<open>n\<close> nested calls of
  \<open>EMBENET_CRITICAL_SECTION_Enter\<close> (\<open>n\<close> between 1 and \<open>INT_MAX\<close>, the range of the
  counter) and fewer than \<open>n\<close> calls of \<open>EMBENET_CRITICAL_SECTION_Exit\<close>, interrupts are
  still disabled and the counter is the number of open sections; the \<open>n\<close>-th exit brings
  the counter to 0 and leaves interrupts enabled exactly when they were enabled before the
  outermost enter. An exit with the counter at 0 leaves it at 0.
\<close>

theorem critical_section_nesting:
  assumes "irqNestCounter c = 0" "1 \<le> n" "int n \<le> INT_MAX"
  shows "(\<forall>k < n. \<exists>c'. cs_run (replicate n Enter @ replicate k Exit) c = Some c'
                     \<and> \<not> interrupts_enabled c' \<and> irqNestCounter c' = int n - int k)
         \<and> (\<exists>c'. cs_run (replicate n Enter @ replicate n Exit) c = Some c'
                  \<and> irqNestCounter c' = 0
                  \<and> (interrupts_enabled c' \<longleftrightarrow> interrupts_enabled c))
         \<and> (\<exists>c'. EMBENET_CRITICAL_SECTION_Exit c = Some c' \<and> irqNestCounter c' = 0)"
proof (intro conjI allI impI)
  fix k assume "k < n"
  then show "\<exists>c'. cs_run (replicate n Enter @ replicate k Exit) c = Some c'
                  \<and> \<not> interrupts_enabled c' \<and> irqNestCounter c' = int n - int k"
    using nested_then_exits [OF assms] by (simp add: interrupts_enabled_def)
next
  obtain m where n: "n = Suc m"
    using assms(2) by (cases n) auto
  let ?c1 = "c\<lparr>irqNestCounter := int n - int m, previousIrqState := PRIMASK c, PRIMASK := 1\<rparr>"
  let ?A = "replicate n Enter @ replicate m Exit"
  have "m < n"
    using n by simp
  then have a: "cs_run ?A c = Some ?c1"
    by (rule nested_then_exits [OF assms])
  have "replicate n Exit = replicate m Exit @ [Exit]"
    unfolding n by (simp add: replicate_append_same)
  then have "cs_run (replicate n Enter @ replicate n Exit) c = cs_run (?A @ [Exit]) c"
    by simp
  also have "\<dots> = (case cs_run ?A c of None \<Rightarrow> None | Some c' \<Rightarrow> cs_run [Exit] c')"
    by (rule cs_run_append)
  also have "\<dots> = cs_run [Exit] ?c1"
    by (simp only: a option.case)
  also have "\<dots> = EMBENET_CRITICAL_SECTION_Exit ?c1"
    by (simp split: option.splits)
  also have "\<dots> = Some (?c1\<lparr>irqNestCounter := 0,
                              PRIMASK := (if previousIrqState ?c1 = 0 then 0 else PRIMASK ?c1)\<rparr>)"
    by (rule Exit_outermost) (simp add: n)
  finally show "\<exists>c'. cs_run (replicate n Enter @ replicate n Exit) c = Some c'
                  \<and> irqNestCounter c' = 0
                  \<and> (interrupts_enabled c' \<longleftrightarrow> interrupts_enabled c)"
    by (simp add: interrupts_enabled_def)
next
  show "\<exists>c'. EMBENET_CRITICAL_SECTION_Exit c = Some c' \<and> irqNestCounter c' = 0"
    by (rule Exit_unbalanced [OF assms(1)])
qed

theorem critical_section_nesting_witness:
  "irqNestCounter \<lparr>irqNestCounter = 0, previousIrqState = 1, PRIMASK = 0\<rparr> = 0
   \<and> (1 :: nat) \<le> 3 \<and> int 3 \<le> INT_MAX
   \<and> (\<exists>c'. cs_run (replicate 3 Enter @ replicate 2 Exit)
               \<lparr>irqNestCounter = 0, previousIrqState = 1, PRIMASK = 0\<rparr> = Some c'
            \<and> \<not> interrupts_enabled c' \<and> irqNestCounter c' = int 3 - int 2)
   \<and> (\<exists>c'. cs_run (replicate 3 Enter @ replicate 3 Exit)
               \<lparr>irqNestCounter = 0, previousIrqState = 1, PRIMASK = 0\<rparr> = Some c'
            \<and> irqNestCounter c' = 0 \<and> interrupts_enabled c')"
proof -
  let ?c = "\<lparr>irqNestCounter = 0, previousIrqState = 1, PRIMASK = 0\<rparr>"
  have h: "irqNestCounter ?c = 0" "(1 :: nat) \<le> 3" "int 3 \<le> INT_MAX"
    by (simp_all add: INT_MAX_def)
  note t = critical_section_nesting [OF h]
  from t have "\<forall>k < 3. \<exists>c'. cs_run (replicate 3 Enter @ replicate k Exit) ?c = Some c'
                     \<and> \<not> interrupts_enabled c' \<and> irqNestCounter c' = int 3 - int k"
    by (rule conjunct1)
  then have a: "\<exists>c'. cs_run (replicate 3 Enter @ replicate 2 Exit) ?c = Some c'
                     \<and> \<not> interrupts_enabled c' \<and> irqNestCounter c' = int 3 - int 2"
    by (rule allE [of _ 2]) simp
  have e: "interrupts_enabled ?c"
    by (simp add: interrupts_enabled_def)
  from t e have b: "\<exists>c'. cs_run (replicate 3 Enter @ replicate 3 Exit) ?c = Some c'
                  \<and> irqNestCounter c' = 0 \<and> interrupts_enabled c'"
    by blast
  from h a b show ?thesis
    by blast
qed

end
